theory Spec2Isabelle
  imports Main "HOL-Library.Word"
begin

section \<open>Machine values, memory and decimal rendering\<close>

text \<open>
  Bytes are \<open>uint8_t\<close>, pointers and \<open>size_t\<close> are 64-bit words whose arithmetic
  wraps. Process memory is a flat map from addresses to bytes.
\<close>

type_synonym byte = "8 word"
type_synonym addr = "64 word"
type_synonym memory = "addr \<Rightarrow> byte"

text \<open>
  The constructor \<open>std::vector<uint8_t>(p, p + n)\<close>: the \<open>n\<close> bytes stored from
  address \<open>p\<close> on.
\<close>

definition read_bytes :: "memory \<Rightarrow> addr \<Rightarrow> nat \<Rightarrow> byte list" where
  "read_bytes m p n = map (\<lambda>j. m (p + of_nat j)) [0..<n]"

text \<open>
  \<open>memcpy(dst, data.data(), n)\<close> from a vector: byte \<open>j\<close> of the vector goes to
  address \<open>dst + j\<close>. Reading past the end of the vector is undefined behaviour in
  C++; the model returns \<open>None\<close> there.
\<close>

definition memcpy :: "memory \<Rightarrow> addr \<Rightarrow> byte list \<Rightarrow> nat \<Rightarrow> memory option" where
  "memcpy m dst src n =
     (if n \<le> length src
      then Some (fold (\<lambda>j m'. m'(dst + of_nat j := src ! j)) [0..<n] m)
      else None)"

text \<open>\<open>std::to_string\<close> on an integer: decimal digits, with a minus sign when negative.\<close>

definition digit_char :: "nat \<Rightarrow> char" where
  "digit_char d = ''0123456789'' ! d"

fun nat_digits :: "nat \<Rightarrow> string" where
  "nat_digits n =
     (if n < 10 then [digit_char n]
      else nat_digits (n div 10) @ [digit_char (n mod 10)])"

declare nat_digits.simps [simp del]

definition to_string :: "int \<Rightarrow> string" where
  "to_string i =
     (if i < 0 then CHR ''-'' # nat_digits (nat (- i)) else nat_digits (nat i))"

text \<open>The bytes of a C++ string.\<close>

definition string_bytes :: "string \<Rightarrow> byte list" where
  "string_bytes cs = map (\<lambda>c. of_nat (of_char c)) cs"

section \<open>The key-value store\<close>

text \<open>
  Modelled from the spec: the store class (\<open>c10d::Store\<close>) is an external collaborator
  and none of its code is among the sources. The operations follow the contract table
  of the spec: \<open>set\<close> upserts and fails when the store is unreachable; \<open>get\<close> fails on
  an absent key; \<open>check\<close> is true iff every listed key exists and never blocks;
  \<open>add\<close> is a fetch-and-add that creates the key at 0 and returns the post-add value;
  \<open>deleteKey\<close> is a no-op on an absent key; \<open>wait\<close> blocks until every listed key
  exists. A value is either published bytes or a counter made by \<open>add\<close>. The contract
  is silent on mixing the two: here \<open>get\<close> renders a counter in decimal and \<open>add\<close>
  on published bytes throws. \<open>oplog\<close> is the history of the operations the store has
  served, oldest first.
\<close>

type_synonym key = string

datatype store_value = Bytes "byte list" | Counter int

datatype store_op =
    OpSet key "byte list"
  | OpGet key
  | OpCheck "key list"
  | OpAdd key int
  | OpDeleteKey key
  | OpWait "key list"

datatype store_error = StoreError

record kvstore =
  kv :: "key \<rightharpoonup> store_value"
  reachable :: bool
  oplog :: "store_op list"

definition served :: "store_op \<Rightarrow> kvstore \<Rightarrow> kvstore" where
  "served op s = s\<lparr>oplog := oplog s @ [op]\<rparr>"

definition store_set :: "key \<Rightarrow> byte list \<Rightarrow> kvstore \<Rightarrow> (store_error + unit) \<times> kvstore" where
  "store_set k v s =
     (if reachable s
      then (Inr (), served (OpSet k v) (s\<lparr>kv := (kv s)(k \<mapsto> Bytes v)\<rparr>))
      else (Inl StoreError, served (OpSet k v) s))"

definition store_get :: "key \<Rightarrow> kvstore \<Rightarrow> (store_error + byte list) \<times> kvstore" where
  "store_get k s =
     (case kv s k of
        None \<Rightarrow> (Inl StoreError, served (OpGet k) s)
      | Some (Bytes b) \<Rightarrow> (Inr b, served (OpGet k) s)
      | Some (Counter c) \<Rightarrow> (Inr (string_bytes (to_string c)), served (OpGet k) s))"

definition store_check :: "key list \<Rightarrow> kvstore \<Rightarrow> (store_error + bool) \<times> kvstore" where
  "store_check ks s = (Inr (list_all (\<lambda>k. kv s k \<noteq> None) ks), served (OpCheck ks) s)"

definition store_add :: "key \<Rightarrow> int \<Rightarrow> kvstore \<Rightarrow> (store_error + int) \<times> kvstore" where
  "store_add k d s =
     (case kv s k of
        None \<Rightarrow> (Inr d, served (OpAdd k d) (s\<lparr>kv := (kv s)(k \<mapsto> Counter d)\<rparr>))
      | Some (Counter c) \<Rightarrow>
          (Inr (c + d), served (OpAdd k d) (s\<lparr>kv := (kv s)(k \<mapsto> Counter (c + d))\<rparr>))
      | Some (Bytes b) \<Rightarrow> (Inl StoreError, served (OpAdd k d) s))"

definition store_deleteKey :: "key \<Rightarrow> kvstore \<Rightarrow> (store_error + unit) \<times> kvstore" where
  "store_deleteKey k s = (Inr (), served (OpDeleteKey k) (s\<lparr>kv := (kv s)(k := None)\<rparr>))"

text \<open>\<open>wait\<close> returns once every key exists; \<open>None\<close> is the caller still blocked.\<close>

definition store_wait :: "key list \<Rightarrow> kvstore \<Rightarrow> ((store_error + unit) \<times> kvstore) option" where
  "store_wait ks s =
     (if list_all (\<lambda>k. kv s k \<noteq> None) ks then Some (Inr (), served (OpWait ks) s) else None)"

section \<open>The out-of-band allgather (torch\_ucc\_comm.cpp, lines 85-159)\<close>

datatype ucc_status_t = UCC_OK | UCC_INPROGRESS | UCC_ERR_NO_MESSAGE | UCC_ERR_OTHER

text \<open>
  The struct \<open>torch_ucc_oob_coll_info_t\<close> is declared in a header that is not among the
  sources; its fields are the ones the three functions use (the store it points to is
  passed on its own). \<open>rank\<close> and \<open>size'\<close> are C \<open>int\<close>s.
\<close>

record torch_ucc_oob_coll_info_t =
  comm_id :: nat
  rank :: int
  size' :: int
  rbuf :: addr
  msglen :: "64 word"

text \<open>
  Modelled from the spec: \<open>getKey\<close> is a member of that struct, declared in the
  missing header. The spec derives every key of a round deterministically from a round
  identifier; here the identifier is rendered in decimal and put in front of the name.
\<close>

definition getKey :: "'a torch_ucc_oob_coll_info_t_scheme \<Rightarrow> string \<Rightarrow> key" where
  "getKey i name = to_string (int (comm_id i)) @ name"

definition teamr_key :: "'a torch_ucc_oob_coll_info_t_scheme \<Rightarrow> int \<Rightarrow> key" where
  "teamr_key i r = getKey i (''teamr'' @ to_string r)"

definition ag_done_key :: "'a torch_ucc_oob_coll_info_t_scheme \<Rightarrow> key" where
  "ag_done_key i = getKey i ''ag_done''"

definition ag_free_key :: "'a torch_ucc_oob_coll_info_t_scheme \<Rightarrow> int \<Rightarrow> key" where
  "ag_free_key i r = getKey i (''ag_free'' @ to_string r)"

text \<open>
  What a call works on: the shared store, the process memory, the struct that
  \<open>coll_info\<close> points to, and the caller's request slot \<open>*req\<close>.
\<close>

record oob_world =
  store :: kvstore
  mem :: memory
  info :: torch_ucc_oob_coll_info_t
  req :: addr

text \<open>
  \<open>oob_allgather\<close> (lines 85-107). The vector is built from \<open>sbuf\<close> before the
  \<open>try\<close>; the three assignments follow the \<open>set\<close> inside it, so a throwing \<open>set\<close>
  skips them.
\<close>

definition oob_allgather ::
  "addr \<Rightarrow> addr \<Rightarrow> 64 word \<Rightarrow> addr \<Rightarrow> oob_world \<Rightarrow> ucc_status_t \<times> oob_world" where
  "oob_allgather sbuf rbuf_arg msglen_arg coll_info w =
     (let val = read_bytes (mem w) sbuf (unat msglen_arg) in
      case store_set (teamr_key (info w) (rank (info w))) val (store w) of
        (Inr _, s') \<Rightarrow>
          (UCC_OK,
           w\<lparr>store := s',
             info := (info w)\<lparr>rbuf := rbuf_arg, msglen := msglen_arg\<rparr>,
             req := coll_info\<rparr>)
      | (Inl _, s') \<Rightarrow> (UCC_ERR_NO_MESSAGE, w\<lparr>store := s'\<rparr>))"

text \<open>
  \<open>oob_allgather_test\<close> (lines 109-133). The first loop (lines 114-118) returns
  \<open>UCC_INPROGRESS\<close> at the first missing key: \<open>Inr False\<close>.
\<close>

fun test_check_loop ::
  "torch_ucc_oob_coll_info_t \<Rightarrow> nat list \<Rightarrow> kvstore \<Rightarrow> (store_error + bool) \<times> kvstore" where
  "test_check_loop i [] s = (Inr True, s)"
| "test_check_loop i (r # rs) s =
     (case store_check [teamr_key i (int r)] s of
        (Inl e, s') \<Rightarrow> (Inl e, s')
      | (Inr False, s') \<Rightarrow> (Inr False, s')
      | (Inr True, s') \<Rightarrow> test_check_loop i rs s')"

text \<open>
  The second loop (lines 119-126). The destination is
  \<open>(ptrdiff_t)info->rbuf + info->msglen * r\<close>, computed in 64 bits.
\<close>

fun test_copy_loop ::
  "torch_ucc_oob_coll_info_t \<Rightarrow> nat list \<Rightarrow> kvstore \<Rightarrow> memory \<Rightarrow>
     ((store_error + unit) \<times> kvstore \<times> memory) option" where
  "test_copy_loop i [] s m = Some (Inr (), s, m)"
| "test_copy_loop i (r # rs) s m =
     (case store_get (teamr_key i (int r)) s of
        (Inl e, s') \<Rightarrow> Some (Inl e, s', m)
      | (Inr data, s') \<Rightarrow>
          (case memcpy m (rbuf i + msglen i * of_nat r) data (unat (msglen i)) of
             None \<Rightarrow> None
           | Some m' \<Rightarrow> test_copy_loop i rs s' m'))"

definition oob_allgather_test :: "oob_world \<Rightarrow> (ucc_status_t \<times> oob_world) option" where
  "oob_allgather_test w =
     (let i = info w; ranks = [0..<nat (size' i)] in
      case test_check_loop i ranks (store w) of
        (Inl e, s') \<Rightarrow> Some (UCC_ERR_NO_MESSAGE, w\<lparr>store := s'\<rparr>)
      | (Inr False, s') \<Rightarrow> Some (UCC_INPROGRESS, w\<lparr>store := s'\<rparr>)
      | (Inr True, s') \<Rightarrow>
          (case test_copy_loop i ranks s' (mem w) of
             None \<Rightarrow> None
           | Some (Inl e, s'', m') \<Rightarrow> Some (UCC_ERR_NO_MESSAGE, w\<lparr>store := s'', mem := m'\<rparr>)
           | Some (Inr _, s'', m') \<Rightarrow> Some (UCC_OK, w\<lparr>store := s'', mem := m'\<rparr>)))"

text \<open>
  \<open>oob_allgather_free\<close> (lines 135-159). The call can block in \<open>wait\<close> while other
  peers work on the store, so it is a machine that performs one store operation per step.
  The program counter names the statement to run next: \<open>AddDone\<close> line 139,
  \<open>DelDone\<close> line 141, \<open>DelTeamr r\<close> the loop of lines 142-144 at loop variable
  \<open>r\<close>, \<open>AddFree r\<close> the loop of lines 145-147, \<open>WaitFree\<close> line 149,
  \<open>DelOwnFree\<close> lines 151-152, \<open>Returned st\<close> the \<open>return\<close> of line 156 or 158.
  Every store operation sits in the \<open>try\<close> block: one that throws leads to
  \<open>Returned UCC_ERR_NO_MESSAGE\<close>.
\<close>

datatype free_pc =
    AddDone
  | DelDone
  | DelTeamr nat
  | AddFree nat
  | WaitFree
  | DelOwnFree
  | Returned ucc_status_t

text \<open>\<open>int num_done = store->add(...)\<close>: the \<open>int64_t\<close> result is narrowed to an \<open>int\<close>.\<close>

definition narrow_int :: "int \<Rightarrow> int" where
  "narrow_int n = sint (word_of_int n :: 32 word)"

text \<open>One step; \<open>None\<close> when the call is blocked in \<open>wait\<close> or has returned.\<close>

fun free_step ::
  "torch_ucc_oob_coll_info_t \<Rightarrow> free_pc \<Rightarrow> kvstore \<Rightarrow> (free_pc \<times> kvstore) option" where
  "free_step i AddDone s =
     (case store_add (ag_done_key i) 1 s of
        (Inl e, s') \<Rightarrow> Some (Returned UCC_ERR_NO_MESSAGE, s')
      | (Inr n, s') \<Rightarrow> Some (if narrow_int n = size' i then DelDone else WaitFree, s'))"
| "free_step i DelDone s =
     (case store_deleteKey (ag_done_key i) s of
        (Inl e, s') \<Rightarrow> Some (Returned UCC_ERR_NO_MESSAGE, s')
      | (Inr u, s') \<Rightarrow> Some (DelTeamr 0, s'))"
| "free_step i (DelTeamr r) s =
     (if int r < size' i
      then (case store_deleteKey (teamr_key i (int r)) s of
              (Inl e, s') \<Rightarrow> Some (Returned UCC_ERR_NO_MESSAGE, s')
            | (Inr u, s') \<Rightarrow> Some (DelTeamr (Suc r), s'))
      else Some (AddFree 0, s))"
| "free_step i (AddFree r) s =
     (if int r < size' i
      then (case store_add (ag_free_key i (int r)) 1 s of
              (Inl e, s') \<Rightarrow> Some (Returned UCC_ERR_NO_MESSAGE, s')
            | (Inr n, s') \<Rightarrow> Some (AddFree (Suc r), s'))
      else Some (DelOwnFree, s))"
| "free_step i WaitFree s =
     (case store_wait [ag_free_key i (rank i)] s of
        None \<Rightarrow> None
      | Some (Inl e, s') \<Rightarrow> Some (Returned UCC_ERR_NO_MESSAGE, s')
      | Some (Inr u, s') \<Rightarrow> Some (DelOwnFree, s'))"
| "free_step i DelOwnFree s =
     (case store_deleteKey (ag_free_key i (rank i)) s of
        (Inl e, s') \<Rightarrow> Some (Returned UCC_ERR_NO_MESSAGE, s')
      | (Inr u, s') \<Rightarrow> Some (Returned UCC_OK, s'))"
| "free_step i (Returned st) s = None"

text \<open>The number of steps a call can still take, at most.\<close>

fun free_steps_left :: "torch_ucc_oob_coll_info_t \<Rightarrow> free_pc \<Rightarrow> nat" where
  "free_steps_left i AddDone = 2 * nat (size' i) + 5"
| "free_steps_left i DelDone = 2 * nat (size' i) + 4"
| "free_steps_left i (DelTeamr r) = (nat (size' i) - r) + nat (size' i) + 3"
| "free_steps_left i (AddFree r) = (nat (size' i) - r) + 2"
| "free_steps_left i WaitFree = 2"
| "free_steps_left i DelOwnFree = 1"
| "free_steps_left i (Returned st) = 0"

text \<open>
  The call running alone on the store, from a program counter on: it stops at
  \<open>Returned st\<close>, or at \<open>WaitFree\<close> when the release key is absent, where it stays
  blocked until another peer makes the key.
\<close>

function free_run ::
  "torch_ucc_oob_coll_info_t \<Rightarrow> free_pc \<Rightarrow> kvstore \<Rightarrow> free_pc \<times> kvstore" where
  "free_run i pc s =
     (case free_step i pc s of
        None \<Rightarrow> (pc, s)
      | Some (pc', s') \<Rightarrow> free_run i pc' s')"
  by pat_completeness auto
termination
proof (relation "measure (\<lambda>(i, pc, s). free_steps_left i pc)")
  show "wf (measure (\<lambda>(i, pc, s). free_steps_left i pc))" by simp
next
  fix i :: torch_ucc_oob_coll_info_t and pc s x2 x y
  assume "free_step i pc s = Some x2" and "(x, y) = x2"
  then have "free_step i pc s = Some (x, y)" by simp
  then have "free_steps_left i x < free_steps_left i pc"
    by (cases pc)
      (auto simp: store_add_def store_deleteKey_def store_wait_def
        split: option.splits store_value.splits if_splits)
  then show "((i, x, y), (i, pc, s)) \<in> measure (\<lambda>(i, pc, s). free_steps_left i pc)"
    by simp
qed

declare free_run.simps [simp del]

definition oob_allgather_free :: "torch_ucc_oob_coll_info_t \<Rightarrow> kvstore \<Rightarrow> free_pc \<times> kvstore" where
  "oob_allgather_free i s = free_run i AddDone s"

text \<open>
  The peers of one round releasing concurrently. Peer \<open>p\<close> holds a struct with rank
  \<open>p\<close> and the communicator and size of \<open>base\<close>; the state is the shared store and
  every peer's program counter. A scheduler picks the peer that takes the next step; a
  peer that is blocked or has returned, and a number that is no peer, leave the state as
  it is.
\<close>

type_synonym release_state = "kvstore \<times> (nat \<Rightarrow> free_pc)"

definition release_step :: "torch_ucc_oob_coll_info_t \<Rightarrow> nat \<Rightarrow> release_state \<Rightarrow> release_state" where
  "release_step base p g =
     (case g of (s, pcs) \<Rightarrow>
        if int p < size' base
        then (case free_step (base\<lparr>rank := int p\<rparr>) (pcs p) s of
                None \<Rightarrow> (s, pcs)
              | Some (pc', s') \<Rightarrow> (s', pcs(p := pc')))
        else (s, pcs))"

definition release_run :: "torch_ucc_oob_coll_info_t \<Rightarrow> nat list \<Rightarrow> release_state \<Rightarrow> release_state" where
  "release_run base sched g = fold (release_step base) sched g"

text \<open>
  The caller's retry loop: \<open>poll_again\<close> is the world one more call of
  \<open>oob_allgather_test\<close> leaves behind.
\<close>

definition poll_again :: "oob_world \<Rightarrow> oob_world" where
  "poll_again w = (case oob_allgather_test w of Some (st, w') \<Rightarrow> w' | None \<Rightarrow> w)"

section \<open>The invariant of a release round\<close>

text \<open>
  \<open>started\<close> are the peers that have incremented the counter. While no peer has read
  \<open>size\<close> from the counter (\<open>gathering\<close>), every peer is before its increment or
  waiting, the counter is the number of peers that started, some peer has not started
  yet and no release key exists. Afterwards (\<open>releasing\<close>) \<open>L\<close> is the last
  arriver: \<open>last_stage\<close> are the program counters it can be at,
  \<open>teamr_deleted\<close> and \<open>free_added\<close> the publish keys it has deleted and the release
  keys it has made by then.
\<close>

definition started :: "(nat \<Rightarrow> free_pc) \<Rightarrow> nat \<Rightarrow> nat set" where
  "started pcs S = {p. p < S \<and> pcs p \<noteq> AddDone}"

fun last_stage :: "nat \<Rightarrow> free_pc \<Rightarrow> bool" where
  "last_stage S DelDone = True"
| "last_stage S (DelTeamr j) = (j \<le> S)"
| "last_stage S (AddFree j) = (j \<le> S)"
| "last_stage S DelOwnFree = True"
| "last_stage S (Returned st) = (st = UCC_OK)"
| "last_stage S AddDone = False"
| "last_stage S WaitFree = False"

fun teamr_deleted :: "free_pc \<Rightarrow> nat \<Rightarrow> bool" where
  "teamr_deleted (DelTeamr j) r = (r < j)"
| "teamr_deleted (AddFree j) r = True"
| "teamr_deleted DelOwnFree r = True"
| "teamr_deleted (Returned st) r = True"
| "teamr_deleted AddDone r = False"
| "teamr_deleted DelDone r = False"
| "teamr_deleted WaitFree r = False"

fun free_added :: "free_pc \<Rightarrow> nat \<Rightarrow> bool" where
  "free_added (AddFree j) r = (r < j)"
| "free_added DelOwnFree r = True"
| "free_added (Returned st) r = True"
| "free_added AddDone r = False"
| "free_added DelDone r = False"
| "free_added (DelTeamr j) r = False"
| "free_added WaitFree r = False"

definition gathering :: "torch_ucc_oob_coll_info_t \<Rightarrow> release_state \<Rightarrow> bool" where
  "gathering base g =
     (case g of (s, pcs) \<Rightarrow>
        (\<forall>p<nat (size' base). pcs p = AddDone \<or> pcs p = WaitFree)
        \<and> kv s (ag_done_key base) =
            (if started pcs (nat (size' base)) = {} then None
             else Some (Counter (int (card (started pcs (nat (size' base)))))))
        \<and> (0 < nat (size' base) \<longrightarrow> card (started pcs (nat (size' base))) < nat (size' base))
        \<and> (\<forall>r<nat (size' base). kv s (ag_free_key base (int r)) = None))"

definition releasing :: "torch_ucc_oob_coll_info_t \<Rightarrow> nat \<Rightarrow> release_state \<Rightarrow> bool" where
  "releasing base L g =
     (case g of (s, pcs) \<Rightarrow>
        L < nat (size' base) \<and> last_stage (nat (size' base)) (pcs L)
        \<and> (\<forall>p<nat (size' base). p \<noteq> L \<longrightarrow>
              pcs p = WaitFree \<or> pcs p = DelOwnFree \<or> pcs p = Returned UCC_OK)
        \<and> kv s (ag_done_key base) =
            (if pcs L = DelDone then Some (Counter (size' base)) else None)
        \<and> (\<forall>r<nat (size' base). teamr_deleted (pcs L) r \<longrightarrow> kv s (teamr_key base (int r)) = None)
        \<and> (\<forall>r<nat (size' base). r \<noteq> L \<longrightarrow>
              kv s (ag_free_key base (int r)) =
                (if free_added (pcs L) r \<and> pcs r = WaitFree \<or> pcs r = DelOwnFree
                 then Some (Counter 1) else None))
        \<and> (\<forall>r<nat (size' base). r \<noteq> L \<longrightarrow> pcs r \<noteq> WaitFree \<longrightarrow> free_added (pcs L) r)
        \<and> kv s (ag_free_key base (int L)) =
            (if free_added (pcs L) L \<and> pcs L \<noteq> Returned UCC_OK then Some (Counter 1) else None))"

definition round_inv :: "torch_ucc_oob_coll_info_t \<Rightarrow> release_state \<Rightarrow> bool" where
  "round_inv base g = (gathering base g \<or> (\<exists>L. releasing base L g))"

text \<open>The steps the peers of a round can still take, at most, all together.\<close>

definition round_steps_left :: "torch_ucc_oob_coll_info_t \<Rightarrow> (nat \<Rightarrow> free_pc) \<Rightarrow> nat" where
  "round_steps_left base pcs = (\<Sum>p<nat (size' base). free_steps_left base (pcs p))"

section \<open>The communicator constructors (torch\_ucc\_comm.cpp, lines 16-63 and 161-235)\<close>

text \<open>
  UCX and UCC are external libraries: what each of their calls returns is given by a record, and
  the constructor's run is the list of the calls it made, each with the status it got
  (\<open>void\<close> calls are logged with the OK status). The macros \<open>TORCH_UCX_CHECK\<close> and
  \<open>TORCH_UCC_CHECK\<close> are defined in a header that is not among the sources; by their use
  they evaluate the call and throw with the given message when its status is not OK.
\<close>

datatype ucs_status_t = UCS_OK | UCS_ERR nat

datatype ucs_thread_mode_t =
  UCS_THREAD_MODE_SINGLE | UCS_THREAD_MODE_SERIALIZED | UCS_THREAD_MODE_MULTI

datatype ucc_thread_mode_t = UCC_THREAD_SINGLE | UCC_THREAD_FUNNELED | UCC_THREAD_MULTIPLE

text \<open>
  The exceptions: \<open>c10::Error\<close> from \<open>TORCH_CHECK\<close> and the checking macros, with its
  message, and \<open>std::runtime_error\<close> built from the status of the failed call.
\<close>

datatype init_exn =
    TorchCheckError string
  | UcsRuntimeError ucs_status_t
  | UccRuntimeError ucc_status_t

datatype ucx_call =
    Ucp_lib_query
  | Ucp_config_read
  | Ucp_init
  | Ucp_config_release
  | Ucp_worker_create
  | Ucp_cleanup
  | Ucp_worker_destroy

record ucx_library =
  ucp_lib_query_status :: ucs_status_t
  max_thread_level :: ucs_thread_mode_t
  ucp_config_read_status :: ucs_status_t
  ucp_init_status :: ucs_status_t
  ucp_worker_create_status :: ucs_status_t

type_synonym ucx_log = "(ucx_call \<times> ucs_status_t) list"

text \<open>
  A constructed \<open>CommUCX\<close>: whether its members \<open>context\<close> and \<open>worker\<close> hold a
  handle.
\<close>

record CommUCX =
  ucx_context :: bool
  ucx_worker :: bool

text \<open>\<open>CommUCX::CommUCX\<close> (lines 16-63).\<close>

definition CommUCX_ctor :: "ucx_library \<Rightarrow> (init_exn + CommUCX) \<times> ucx_log" where
  "CommUCX_ctor lib =
     (let log1 = [(Ucp_lib_query, ucp_lib_query_status lib)] in
      if ucp_lib_query_status lib \<noteq> UCS_OK
      then (Inl (TorchCheckError ''failed to query UCP lib attributes''), log1)
      else if max_thread_level lib \<noteq> UCS_THREAD_MODE_MULTI
      then (Inl (TorchCheckError
              (''ucx library wasn't initialized with multithreading support, '' @
               ''please check ucx build options'')), log1)
      else
      let log2 = log1 @ [(Ucp_config_read, ucp_config_read_status lib)] in
      if ucp_config_read_status lib \<noteq> UCS_OK
      then (Inl (TorchCheckError ''failed to read UCP config''), log2)
      else
      let log3 = log2 @ [(Ucp_init, ucp_init_status lib)] in
      if ucp_init_status lib \<noteq> UCS_OK
      then (Inl (TorchCheckError ''failed to init UCP context''), log3)
      else
      let log4 = log3 @ [(Ucp_config_release, UCS_OK)];
          log5 = log4 @ [(Ucp_worker_create, ucp_worker_create_status lib)] in
      if ucp_worker_create_status lib \<noteq> UCS_OK
      then (Inl (UcsRuntimeError (ucp_worker_create_status lib)),
            log5 @ [(Ucp_cleanup, UCS_OK)])
      else (Inr \<lparr>ucx_context = True, ucx_worker = True\<rparr>, log5))"

datatype ucc_call =
    Ucc_lib_config_read
  | Ucc_init
  | Ucc_lib_config_release
  | Ucc_lib_get_attr
  | Ucc_context_config_read
  | Ucc_context_config_modify
  | Ucc_context_create
  | Ucc_context_config_release
  | Ucc_finalize
  | Ucc_context_destroy

record ucc_library =
  ucc_lib_config_read_status :: ucc_status_t
  ucc_init_status :: ucc_status_t
  ucc_lib_get_attr_status :: ucc_status_t
  thread_mode :: ucc_thread_mode_t
  ucc_context_config_read_status :: ucc_status_t
  ucc_context_config_modify_status :: ucc_status_t
  ucc_context_create_status :: ucc_status_t
  ucc_finalize_status :: ucc_status_t

type_synonym ucc_log = "(ucc_call \<times> ucc_status_t) list"

text \<open>A constructed \<open>CommUCC\<close>: whether \<open>lib\<close> and \<open>context\<close> hold a handle.\<close>

record CommUCC =
  ucc_lib :: bool
  ucc_context :: bool

text \<open>
  \<open>CommUCC::CommUCC\<close> (lines 161-235). \<open>ucc_context_create\<close> is the call in which the
  library drives the rendezvous through the three callbacks; here it is a library call
  like the others. The \<open>ucc_finalize\<close> of lines 192 and 228 sits in a
  \<open>TORCH_UCC_CHECK\<close>, the one of line 206 does not.
\<close>

definition CommUCC_ctor :: "ucc_library \<Rightarrow> (init_exn + CommUCC) \<times> ucc_log" where
  "CommUCC_ctor l =
     (let log1 = [(Ucc_lib_config_read, ucc_lib_config_read_status l)] in
      if ucc_lib_config_read_status l \<noteq> UCC_OK
      then (Inl (TorchCheckError ''failed to read UCC lib config''), log1)
      else
      let log2 = log1 @ [(Ucc_init, ucc_init_status l)] in
      if ucc_init_status l \<noteq> UCC_OK
      then (Inl (TorchCheckError ''failed to init UCC lib''), log2)
      else
      let log3 = log2 @ [(Ucc_lib_config_release, UCC_OK)];
          log4 = log3 @ [(Ucc_lib_get_attr, ucc_lib_get_attr_status l)] in
      if ucc_lib_get_attr_status l \<noteq> UCC_OK
      then (Inl (TorchCheckError ''failed to query for lib attr''), log4)
      else if thread_mode l \<noteq> UCC_THREAD_MULTIPLE
      then (Inl (TorchCheckError
              (''ucc library wasn't initialized with multithreading support, '' @
               ''please check ucc build options'')), log4)
      else
      let log5 = log4 @ [(Ucc_context_config_read, ucc_context_config_read_status l)] in
      if ucc_context_config_read_status l \<noteq> UCC_OK
      then
        (let log6 = log5 @ [(Ucc_finalize, ucc_finalize_status l)] in
         if ucc_finalize_status l \<noteq> UCC_OK
         then (Inl (TorchCheckError
                 ''failed to finalize UCC library when failing to read UCC context config''),
               log6)
         else (Inl (UccRuntimeError (ucc_context_config_read_status l)), log6))
      else
      let log6 = log5 @ [(Ucc_context_config_modify, ucc_context_config_modify_status l)] in
      if ucc_context_config_modify_status l \<noteq> UCC_OK
      then (Inl (UccRuntimeError (ucc_context_config_modify_status l)),
            log6 @ [(Ucc_context_config_release, UCC_OK), (Ucc_finalize, ucc_finalize_status l)])
      else
      let log7 = log6 @ [(Ucc_context_create, ucc_context_create_status l),
                         (Ucc_context_config_release, UCC_OK)] in
      if ucc_context_create_status l \<noteq> UCC_OK
      then
        (let log8 = log7 @ [(Ucc_finalize, ucc_finalize_status l)] in
         if ucc_finalize_status l \<noteq> UCC_OK
         then (Inl (TorchCheckError
                 ''failed to finalize UCC library when failing to creat UCC context''),
               log8)
         else (Inl (UccRuntimeError (ucc_context_create_status l)), log8))
      else (Inr \<lparr>ucc_lib = True, ucc_context = True\<rparr>, log7))"

text \<open>
  Reading a run: the resource a successful call acquires, the resource a call releases,
  and the resources held after a run, in the order they were acquired.
\<close>

datatype ucx_resource = UcpConfig | UcpContext | UcpWorker

fun ucx_acquires :: "ucx_call \<times> ucs_status_t \<Rightarrow> ucx_resource option" where
  "ucx_acquires (Ucp_config_read, UCS_OK) = Some UcpConfig"
| "ucx_acquires (Ucp_init, UCS_OK) = Some UcpContext"
| "ucx_acquires (Ucp_worker_create, UCS_OK) = Some UcpWorker"
| "ucx_acquires e = None"

fun ucx_releases :: "ucx_call \<times> ucs_status_t \<Rightarrow> ucx_resource option" where
  "ucx_releases (Ucp_config_release, st) = Some UcpConfig"
| "ucx_releases (Ucp_cleanup, st) = Some UcpContext"
| "ucx_releases (Ucp_worker_destroy, st) = Some UcpWorker"
| "ucx_releases e = None"

datatype ucc_resource = UccLibConfig | UccLib | UccContextConfig | UccContext

fun ucc_acquires :: "ucc_call \<times> ucc_status_t \<Rightarrow> ucc_resource option" where
  "ucc_acquires (Ucc_lib_config_read, UCC_OK) = Some UccLibConfig"
| "ucc_acquires (Ucc_init, UCC_OK) = Some UccLib"
| "ucc_acquires (Ucc_context_config_read, UCC_OK) = Some UccContextConfig"
| "ucc_acquires (Ucc_context_create, UCC_OK) = Some UccContext"
| "ucc_acquires e = None"

fun ucc_releases :: "ucc_call \<times> ucc_status_t \<Rightarrow> ucc_resource option" where
  "ucc_releases (Ucc_lib_config_release, st) = Some UccLibConfig"
| "ucc_releases (Ucc_finalize, st) = Some UccLib"
| "ucc_releases (Ucc_context_config_release, st) = Some UccContextConfig"
| "ucc_releases (Ucc_context_destroy, st) = Some UccContext"
| "ucc_releases e = None"

fun held_after :: "('e \<Rightarrow> 'r option) \<Rightarrow> ('e \<Rightarrow> 'r option) \<Rightarrow> 'r list \<Rightarrow> 'e list \<Rightarrow> 'r list" where
  "held_after acq rel held [] = held"
| "held_after acq rel held (e # es) =
     held_after acq rel
       (case acq e of
          Some r \<Rightarrow> held @ [r]
        | None \<Rightarrow> (case rel e of Some r \<Rightarrow> remove1 r held | None \<Rightarrow> held))
       es"

definition acquired :: "('e \<Rightarrow> 'r option) \<Rightarrow> 'e list \<Rightarrow> 'r list" where
  "acquired acq es = List.map_filter acq es"

definition released :: "('e \<Rightarrow> 'r option) \<Rightarrow> 'e list \<Rightarrow> 'r list" where
  "released rel es = List.map_filter rel es"

section \<open>The trace logger (torch\_ucc\_tracing.cpp, lines 89-183)\<close>

text \<open>
  The class
  \<open>CommTraceLogger\<close> is declared in a header that is not among the sources; its members
  are the ones \<open>recordOptionalInfo\<close> and \<open>recordComms\<close> use. \<open>startTS\<close> is the
  function-local \<open>static\<close> of \<open>recordComms\<close>: \<open>None\<close> until the first call
  initialises it. Clock readings are nanosecond counts.
\<close>

record CommTraceLogger =
  curBlocks :: "string list"
  comms_trace :: "string list"
  curRoot :: int
  curOutSplitSizes :: "int list"
  curInSplitSizes :: "int list"
  seqnum :: int
  startTS :: "int option"

text \<open>
  Of a tensor \<open>recordComms\<close> reads the number of elements, the scalar type and the
  device type, the last two only to print their names with the PyTorch functions
  \<open>at::toString\<close> and \<open>c10::DeviceTypeName\<close>: the model keeps the names.
  \<open>kByte_name\<close> and \<open>CPU_name\<close> are the names of the defaults \<open>at::kByte\<close> and
  \<open>c10::DeviceType::CPU\<close>.
\<close>

record tensor =
  numel :: int
  scalar_type_name :: string
  device_type_name :: string

definition kByte_name :: string where
  "kByte_name = ''Byte''"

definition CPU_name :: string where
  "CPU_name = ''CPU''"

text \<open>
  \<open>c10::Join\<close> puts the delimiter between the printed elements. Streaming a vector
  into \<open>c10::str\<close> prints at most 100 elements, separated by spaces (both are PyTorch
  functions).
\<close>

fun Join :: "string \<Rightarrow> string list \<Rightarrow> string" where
  "Join d [] = []"
| "Join d [x] = x"
| "Join d (x # y # ys) = x @ d @ Join d (y # ys)"

definition print_sequence :: "string list \<Rightarrow> string" where
  "print_sequence xs =
     Join '' '' (take 100 xs) @ (if 100 < length xs then '' ...'' else [])"

text \<open>
  Pieces of the string literals of \<open>recordComms\<close>: \<open>nl_tt\<close> is a newline and two
  tabs, \<open>dq\<close> a double quote, \<open>label name\<close> the text of a quoted field name, a colon and
  a space.
\<close>

definition nl_tt :: string where
  "nl_tt = [CHR 0x0A, CHR 0x09, CHR 0x09]"

definition dq :: string where
  "dq = [CHR 0x22]"

definition label :: "string \<Rightarrow> string" where
  "label name = dq @ name @ dq @ '': ''"

text \<open>\<open>recordOptionalInfo\<close>, both overloads (lines 89-98).\<close>

definition recordOptionalInfo_root :: "int \<Rightarrow> CommTraceLogger \<Rightarrow> CommTraceLogger" where
  "recordOptionalInfo_root root s = s\<lparr>curRoot := root\<rparr>"

definition recordOptionalInfo_splits ::
  "int list \<Rightarrow> int list \<Rightarrow> CommTraceLogger \<Rightarrow> CommTraceLogger" where
  "recordOptionalInfo_splits outputSplitSizes inputSplitSizes s =
     s\<lparr>curOutSplitSizes := outputSplitSizes, curInSplitSizes := inputSplitSizes\<rparr>"

text \<open>
  \<open>recordComms\<close> (lines 100-183), in the pieces it concatenates. \<open>first_call_time\<close>
  is the value of the static \<open>startTS\<close> once line 114 has run; \<open>common_fields\<close> is the
  \<open>c10::str\<close> of lines 122-136, \<open>msg_fields\<close> what lines 138-151 append,
  \<open>root_field\<close> lines 152-155 and \<open>split_fields\<close> lines 156-166.
\<close>

definition first_call_time :: "int \<Rightarrow> CommTraceLogger \<Rightarrow> int" where
  "first_call_time now s = (case startTS s of None \<Rightarrow> now | Some t \<Rightarrow> t)"

definition common_fields ::
  "string \<Rightarrow> nat \<Rightarrow> int \<Rightarrow> int \<Rightarrow> CommTraceLogger \<Rightarrow> string" where
  "common_fields commName workReq world_size time_since_begin s =
     nl_tt @ label ''markers'' @ ''['' @ print_sequence (curBlocks s) @ '']''
     @ '','' @ nl_tt @ label ''startTime_ns'' @ to_string time_since_begin
     @ '','' @ nl_tt @ label ''comms'' @ dq @ commName @ dq
     @ '','' @ nl_tt @ label ''req'' @ to_string (int workReq)
     @ '','' @ nl_tt @ label ''seqnum'' @ to_string (seqnum s)
     @ '','' @ nl_tt @ label ''world_size'' @ to_string world_size"

definition msg_fields :: "tensor list \<Rightarrow> tensor list \<Rightarrow> string" where
  "msg_fields inputTensors outputTensors =
     (let inSize = (if 0 < length inputTensors then numel (inputTensors ! 0) else 0);
          outSize = (if 0 < length outputTensors then numel (outputTensors ! 0) else 0);
          dtype = (if 0 < length outputTensors then scalar_type_name (outputTensors ! 0)
                   else kByte_name);
          devType = (if 0 < length outputTensors then device_type_name (outputTensors ! 0)
                     else CPU_name)
      in if 0 < inSize \<or> 0 < outSize
         then '','' @ nl_tt @ label ''in_msg_size'' @ to_string inSize
              @ '','' @ nl_tt @ label ''out_msg_size'' @ to_string outSize
              @ '','' @ nl_tt @ label ''dtype'' @ dq @ dtype @ dq
              @ '','' @ nl_tt @ label ''devType'' @ dq @ devType @ dq
         else [])"

definition root_field :: "CommTraceLogger \<Rightarrow> string" where
  "root_field s =
     (if curRoot s \<noteq> - 1 then '','' @ nl_tt @ label ''root'' @ to_string (curRoot s) else [])"

definition split_fields :: "CommTraceLogger \<Rightarrow> string" where
  "split_fields s =
     (if 0 < length (curInSplitSizes s) \<or> 0 < length (curOutSplitSizes s)
      then '','' @ nl_tt @ label ''in_split'' @ ''[''
           @ Join '','' (map to_string (curInSplitSizes s)) @ '']''
           @ '','' @ nl_tt @ label ''out_split'' @ ''[''
           @ Join '','' (map to_string (curOutSplitSizes s)) @ '']''
      else [])"

text \<open>
  The argument \<open>now\<close> is the reading of \<open>std::chrono::system_clock::now()\<close> at line
  113. The rank \<open>rank'\<close> only goes to the profiler hook \<open>RECORD_PARAM_COMMS\<close>, which is outside
  the logger.
\<close>

definition recordComms ::
  "string \<Rightarrow> nat \<Rightarrow> int \<Rightarrow> int \<Rightarrow> tensor list \<Rightarrow> tensor list \<Rightarrow> int \<Rightarrow>
     CommTraceLogger \<Rightarrow> CommTraceLogger" where
  "recordComms commName workReq rank' world_size inputTensors outputTensors now s =
     (let time_since_begin = now - first_call_time now s;
          cur_trace = common_fields commName workReq world_size time_since_begin s
                      @ msg_fields inputTensors outputTensors
                      @ root_field s @ split_fields s
      in s\<lparr>comms_trace := comms_trace s @ [[CHR 0x0A, CHR 0x09] @ ''{'' @ cur_trace
                                               @ [CHR 0x0A, CHR 0x09] @ ''}''],
            seqnum := seqnum s + 1,
            startTS := Some (first_call_time now s),
            curRoot := - 1, curInSplitSizes := [], curOutSplitSizes := []\<rparr>)"

text \<open>
  A run of \<open>recordComms\<close> calls, each given by its arguments, and the records such a
  run appends when no call carries optional information.
\<close>

type_synonym comms_args = "string \<times> nat \<times> int \<times> int \<times> tensor list \<times> tensor list \<times> int"

definition recordComms_args :: "comms_args \<Rightarrow> CommTraceLogger \<Rightarrow> CommTraceLogger" where
  "recordComms_args a s =
     (case a of (commName, workReq, rank', world_size, ins, outs, now) \<Rightarrow>
        recordComms commName workReq rank' world_size ins outs now s)"

definition plain_record :: "comms_args \<Rightarrow> CommTraceLogger \<Rightarrow> string" where
  "plain_record a s =
     (case a of (commName, workReq, rank', world_size, ins, outs, now) \<Rightarrow>
        [CHR 0x0A, CHR 0x09] @ ''{''
        @ common_fields commName workReq world_size (now - first_call_time now s) s
        @ msg_fields ins outs @ [CHR 0x0A, CHR 0x09] @ ''}'')"

fun plain_records :: "comms_args list \<Rightarrow> CommTraceLogger \<Rightarrow> string list" where
  "plain_records [] s = []"
| "plain_records (a # as) s = plain_record a s # plain_records as (recordComms_args a s)"

section \<open>Concrete inputs\<close>

text \<open>
  Three peers of communicator 7 exchanging four bytes each, as in the example of the
  spec; the struct is the one of rank 1. In \<open>ex_full_store\<close> the publications
  arrived in the order 2, 0, 1.
\<close>

definition ex_info :: torch_ucc_oob_coll_info_t where
  "ex_info = \<lparr>comm_id = 7, rank = 1, size' = 3, rbuf = 0, msglen = 0\<rparr>"

definition ex_pub :: "nat \<Rightarrow> byte list" where
  "ex_pub r = [[1, 2, 3, 4], [5, 6, 7, 8], [9, 10, 11, 12]] ! r"

definition ex_sbuf_mem :: memory where
  "ex_sbuf_mem = (\<lambda>a. 0)(16 := 5, 17 := 6, 18 := 7, 19 := 8)"

definition ex_idle_world :: oob_world where
  "ex_idle_world =
     \<lparr>store = \<lparr>kv = Map.empty, reachable = True, oplog = []\<rparr>,
      mem = ex_sbuf_mem, info = ex_info, req = 0\<rparr>"

definition ex_down_world :: oob_world where
  "ex_down_world = ex_idle_world\<lparr>store := (store ex_idle_world)\<lparr>reachable := False\<rparr>\<rparr>"

definition ex_full_store :: kvstore where
  "ex_full_store =
     \<lparr>kv = [''7teamr2'' \<mapsto> Bytes [9, 10, 11, 12], ''7teamr0'' \<mapsto> Bytes [1, 2, 3, 4],
             ''7teamr1'' \<mapsto> Bytes [5, 6, 7, 8]],
      reachable = True,
      oplog = [OpSet ''7teamr2'' [9, 10, 11, 12], OpSet ''7teamr0'' [1, 2, 3, 4],
               OpSet ''7teamr1'' [5, 6, 7, 8]]\<rparr>"

definition ex_full_world :: oob_world where
  "ex_full_world =
     \<lparr>store = ex_full_store, mem = ex_sbuf_mem,
      info = ex_info\<lparr>rbuf := 4096, msglen := 4\<rparr>, req = 64\<rparr>"

definition ex_partial_world :: oob_world where
  "ex_partial_world =
     ex_full_world\<lparr>store := ex_full_store\<lparr>kv := (kv ex_full_store)(''7teamr2'' := None)\<rparr>\<rparr>"

text \<open>
  Stores for the release of rank 1: two peers have already incremented the counter
  (\<open>ex_last_store\<close>), none has (\<open>ex_full_store\<close>, which leads to
  \<open>ex_waiting_store\<close>), and the last arriver has made the release key of rank 1
  (\<open>ex_released_store\<close>).
\<close>

definition ex_last_store :: kvstore where
  "ex_last_store = ex_full_store\<lparr>kv := (kv ex_full_store)(''7ag_done'' \<mapsto> Counter 2)\<rparr>"

definition ex_waiting_store :: kvstore where
  "ex_waiting_store =
     ex_full_store\<lparr>kv := (kv ex_full_store)(''7ag_done'' \<mapsto> Counter 1),
                   oplog := oplog ex_full_store @ [OpAdd ''7ag_done'' 1]\<rparr>"

definition ex_released_store :: kvstore where
  "ex_released_store =
     ex_waiting_store\<lparr>kv := (kv ex_waiting_store)(''7ag_free1'' \<mapsto> Counter 1)\<rparr>"

text \<open>
  A schedule for the three peers of the example: rank 0 increments and is found blocked
  once, rank 2 increments, rank 1 arrives last and cleans up, and the waiting peers are
  scheduled again after their release keys were made.
\<close>

definition ex_schedule :: "nat list" where
  "ex_schedule = [0, 0, 2, 1, 1, 1, 1, 1, 1, 1, 0, 1, 1, 1, 2, 0, 1, 2]"

text \<open>The store of \<open>ex_down_world\<close> after the failed set, reachable again.\<close>

definition ex_up_store :: kvstore where
  "ex_up_store = \<lparr>kv = Map.empty, reachable = True, oplog = [OpSet ''7teamr1'' [5, 6, 7, 8]]\<rparr>"

text \<open>
  Libraries for the examples: a UCX and a UCC whose calls all succeed but which report
  no multithreading support, a UCC whose context creation fails, one whose
  \<open>ucc_finalize\<close> fails as well, a UCX whose worker creation fails and a UCX whose
  \<open>ucp_init\<close> fails.
\<close>

definition ex_ucx_single :: ucx_library where
  "ex_ucx_single =
     \<lparr>ucp_lib_query_status = UCS_OK, max_thread_level = UCS_THREAD_MODE_SINGLE,
      ucp_config_read_status = UCS_OK, ucp_init_status = UCS_OK,
      ucp_worker_create_status = UCS_OK\<rparr>"

definition ex_ucc_single :: ucc_library where
  "ex_ucc_single =
     \<lparr>ucc_lib_config_read_status = UCC_OK, ucc_init_status = UCC_OK,
      ucc_lib_get_attr_status = UCC_OK, thread_mode = UCC_THREAD_SINGLE,
      ucc_context_config_read_status = UCC_OK, ucc_context_config_modify_status = UCC_OK,
      ucc_context_create_status = UCC_OK, ucc_finalize_status = UCC_OK\<rparr>"





text \<open>The logger of a process that has recorded nothing yet.\<close>

definition ex_logger :: CommTraceLogger where
  "ex_logger =
     \<lparr>curBlocks = [], comms_trace = [], curRoot = - 1, curOutSplitSizes = [],
      curInSplitSizes = [], seqnum = 0, startTS = None\<rparr>"

text \<open>
  The field \<open>startTime_ns\<close> in the words of the spec, nanoseconds since process start,
  given the clock readings at process start and at the call; and the record of a first
  \<open>allreduce\<close> with request 1 and world size 2, given the text of its
  \<open>startTime_ns\<close>.
\<close>

definition spec_startTime_ns :: "int \<Rightarrow> int \<Rightarrow> int" where
  "spec_startTime_ns process_start now = now - process_start"

definition ex_first_record :: "string \<Rightarrow> string" where
  "ex_first_record start_time =
     [CHR 0x0A, CHR 0x09] @ ''{'' @ nl_tt @ label ''markers'' @ ''[]''
     @ '','' @ nl_tt @ label ''startTime_ns'' @ start_time
     @ '','' @ nl_tt @ label ''comms'' @ dq @ ''allreduce'' @ dq
     @ '','' @ nl_tt @ label ''req'' @ ''1''
     @ '','' @ nl_tt @ label ''seqnum'' @ ''0''
     @ '','' @ nl_tt @ label ''world_size'' @ ''2''
     @ [CHR 0x0A, CHR 0x09] @ ''}''"

text \<open>
  A logger with a root and split sizes set, and the arguments of a later
  \<open>allreduce\<close> call at clock reading 9000.
\<close>

definition ex_rooted_logger :: CommTraceLogger where
  "ex_rooted_logger =
     recordOptionalInfo_root 0 (recordOptionalInfo_splits [1, 2] [3, 4] ex_logger)"

definition ex_later_call :: comms_args where
  "ex_later_call = (''allreduce'', 2, 0, 2, [], [], 9000)"

section \<open>Properties\<close>

subsection \<open>Decimal rendering is injective\<close>

lemma digit_char_inj: "a < 10 \<Longrightarrow> b < 10 \<Longrightarrow> digit_char a = digit_char b \<Longrightarrow> a = b"
proof -
  assume a: "a < 10" and b: "b < 10" and e: "digit_char a = digit_char b"
  have d: "distinct ''0123456789''" by simp
  have "length ''0123456789'' = 10" by simp
  with a b e d show ?thesis
    unfolding digit_char_def by (metis nth_eq_iff_index_eq)
qed

lemma digit_char_not_minus: "d < 10 \<Longrightarrow> digit_char d \<noteq> CHR ''-''"
proof -
  assume "d < 10"
  then have "digit_char d \<in> set ''0123456789''"
    unfolding digit_char_def by (intro nth_mem) simp
  then show ?thesis by auto
qed

lemma nat_digits_nonempty: "nat_digits n \<noteq> []"
  by (subst nat_digits.simps) simp

lemma nat_digits_length_ge2: "10 \<le> n \<Longrightarrow> 2 \<le> length (nat_digits n)"
  using nat_digits_nonempty [of "n div 10"]
  by (subst nat_digits.simps) (cases "nat_digits (n div 10)"; simp)

lemma nat_digits_inj: "nat_digits n = nat_digits m \<Longrightarrow> n = m"
proof (induction n arbitrary: m rule: nat_digits.induct)
  case (1 n)
  show ?case
  proof (cases "n < 10")
    case True
    then have ln: "length (nat_digits n) = 1" by (subst nat_digits.simps) simp
    have "m < 10"
    proof (rule ccontr)
      assume "\<not> m < 10"
      then have "2 \<le> length (nat_digits m)" by (simp add: nat_digits_length_ge2)
      with ln "1.prems" show False by simp
    qed
    with True "1.prems" show ?thesis
      by (simp add: nat_digits.simps [of n] nat_digits.simps [of m] digit_char_inj)
  next
    case False
    then have ln: "2 \<le> length (nat_digits n)" by (simp add: nat_digits_length_ge2)
    have m10: "\<not> m < 10"
    proof
      assume "m < 10"
      then have "length (nat_digits m) = 1" by (subst nat_digits.simps) simp
      with ln "1.prems" show False by simp
    qed
    from False m10 "1.prems"
    have e: "nat_digits (n div 10) @ [digit_char (n mod 10)] = nat_digits (m div 10) @ [digit_char (m mod 10)]"
      by (simp add: nat_digits.simps [of n] nat_digits.simps [of m])
    then have "nat_digits (n div 10) = nat_digits (m div 10)" and d: "digit_char (n mod 10) = digit_char (m mod 10)"
      by simp_all
    with "1.IH" False have q: "n div 10 = m div 10" by blast
    from d have r: "n mod 10 = m mod 10" by (intro digit_char_inj) simp_all
    from q r show ?thesis by (metis div_mult_mod_eq)
  qed
qed

lemma nat_digits_hd_not_minus: "hd (nat_digits n) \<noteq> CHR ''-''"
proof (induction n rule: nat_digits.induct)
  case (1 n)
  show ?case
  proof (cases "n < 10")
    case True
    then show ?thesis by (subst nat_digits.simps) (simp add: digit_char_not_minus)
  next
    case False
    with 1 show ?thesis
      by (subst nat_digits.simps) (simp add: nat_digits_nonempty)
  qed
qed

lemma to_string_inj: "to_string i = to_string j \<Longrightarrow> i = j"
proof -
  assume e: "to_string i = to_string j"
  have neg: "\<And>a b. nat_digits a \<noteq> CHR ''-'' # b"
    using nat_digits_hd_not_minus by (metis list.sel(1))
  show ?thesis
  proof (cases "i < 0"; cases "j < 0")
    assume "i < 0" "j < 0"
    with e have "nat (- i) = nat (- j)" by (simp add: to_string_def nat_digits_inj)
    with \<open>i < 0\<close> \<open>j < 0\<close> show ?thesis by simp
  next
    assume "i < 0" "\<not> j < 0"
    with e neg show ?thesis by (simp add: to_string_def) metis
  next
    assume "\<not> i < 0" "j < 0"
    with e neg show ?thesis by (simp add: to_string_def)
  next
    assume "\<not> i < 0" "\<not> j < 0"
    with e have "nat i = nat j" by (simp add: to_string_def nat_digits_inj)
    with \<open>\<not> i < 0\<close> \<open>\<not> j < 0\<close> show ?thesis by simp
  qed
qed

subsection \<open>Store operations and the polling loops\<close>

lemma kv_served [simp]: "kv (served op s) = kv s"
  and reachable_served [simp]: "reachable (served op s) = reachable s"
  and oplog_served [simp]: "oplog (served op s) = oplog s @ [op]"
  by (simp_all add: served_def)

lemma store_check_single:
  "store_check [k] s = (Inr (kv s k \<noteq> None), served (OpCheck [k]) s)"
  by (simp add: store_check_def)

lemma test_check_loop_kv:
  "kv (snd (test_check_loop i rs s)) = kv s \<and> reachable (snd (test_check_loop i rs s)) = reachable s"
  by (induction rs arbitrary: s) (simp_all add: store_check_single split: bool.splits)

lemma test_check_loop_missing:
  "r \<in> set rs \<Longrightarrow> kv s (teamr_key i (int r)) = None \<Longrightarrow> fst (test_check_loop i rs s) = Inr False"
  by (induction rs arbitrary: s) (auto simp: store_check_single split: bool.splits)

lemma test_in_progress_once:
  assumes "r < nat (size' (info w))" and "kv (store w) (teamr_key (info w) (int r)) = None"
  shows "\<exists>s'. oob_allgather_test w = Some (UCC_INPROGRESS, w\<lparr>store := s'\<rparr>) \<and> kv s' = kv (store w)"
proof -
  let ?res = "test_check_loop (info w) [0..<nat (size' (info w))] (store w)"
  from assms have "fst ?res = Inr False"
    by (intro test_check_loop_missing [where r = r]) simp_all
  then obtain s' where e: "?res = (Inr False, s')" by (cases ?res) simp
  then have s': "s' = snd ?res" by simp
  from e have "oob_allgather_test w = Some (UCC_INPROGRESS, w\<lparr>store := s'\<rparr>)"
    by (simp add: oob_allgather_test_def Let_def)
  then have "oob_allgather_test w = Some (UCC_INPROGRESS, w\<lparr>store := snd ?res\<rparr>)"
    using s' by simp
  moreover have "kv (snd ?res) = kv (store w)" by (simp add: test_check_loop_kv)
  ultimately show ?thesis by blast
qed

lemma poll_again_pending:
  assumes "r < nat (size' (info w))" and "kv (store w) (teamr_key (info w) (int r)) = None"
  shows "kv (store ((poll_again ^^ n) w)) = kv (store w) \<and> mem ((poll_again ^^ n) w) = mem w
    \<and> info ((poll_again ^^ n) w) = info w \<and> req ((poll_again ^^ n) w) = req w"
proof (induction n)
  case 0
  show ?case by simp
next
  case (Suc n)
  let ?w = "(poll_again ^^ n) w"
  from Suc assms have "r < nat (size' (info ?w))" "kv (store ?w) (teamr_key (info ?w) (int r)) = None"
    by simp_all
  from test_in_progress_once [OF this] obtain s' where
    t: "oob_allgather_test ?w = Some (UCC_INPROGRESS, ?w\<lparr>store := s'\<rparr>)" and k: "kv s' = kv (store ?w)" by blast
  from t have "poll_again ?w = ?w\<lparr>store := s'\<rparr>" by (simp add: poll_again_def)
  with Suc k show ?case by simp
qed

subsection \<open>Copying into the receive buffer\<close>

lemma unat_of_nat64: "k < 2 ^ 64 \<Longrightarrow> unat (of_nat k :: 64 word) = k"
  by (rule of_nat_inverse [OF refl]) simp

lemma of_nat64_inj: "j < 2 ^ 64 \<Longrightarrow> k < 2 ^ 64 \<Longrightarrow> (of_nat j :: 64 word) = of_nat k \<Longrightarrow> j = k"
  by (metis unat_of_nat64)

lemma fold_upd_other:
  "(\<forall>j<n. a \<noteq> dst + of_nat j) \<Longrightarrow>
   fold (\<lambda>j m'. m'(dst + of_nat j := src ! j)) [0..<n] m a = m a"
  by (induction n) simp_all

lemma fold_upd_at:
  fixes dst :: addr
  assumes "n \<le> 2 ^ 64" and "j < n"
  shows "fold (\<lambda>j m'. m'(dst + of_nat j := src ! j)) [0..<n] m (dst + of_nat j) = src ! j"
  using assms
proof (induction n)
  case 0
  then show ?case by simp
next
  case (Suc n)
  show ?case
  proof (cases "j = n")
    case True
    then show ?thesis by simp
  next
    case False
    with Suc.prems have "j < n" "n < 2 ^ 64" "j < 2 ^ 64" by simp_all
    then have "(of_nat j :: addr) \<noteq> of_nat n" using False of_nat64_inj by blast
    with Suc \<open>j < n\<close> show ?thesis by simp
  qed
qed

lemma memcpy_Some:
  "n \<le> length src \<Longrightarrow> \<exists>m'. memcpy m dst src n = Some m'"
  by (simp add: memcpy_def)

lemma memcpy_at:
  "memcpy m dst src n = Some m' \<Longrightarrow> n \<le> 2 ^ 64 \<Longrightarrow> j < n \<Longrightarrow> m' (dst + of_nat j) = src ! j"
  by (auto simp: memcpy_def fold_upd_at split: if_splits)

lemma memcpy_other:
  "memcpy m dst src n = Some m' \<Longrightarrow> (\<forall>j<n. a \<noteq> dst + of_nat j) \<Longrightarrow> m' a = m a"
  by (auto simp: memcpy_def fold_upd_other split: if_splits)

lemma slot_addr:
  fixes b :: addr and L :: "64 word"
  shows "b + L * of_nat r + of_nat j = b + of_nat (unat L * r + j)"
  by simp

lemma slot_index_inj:
  fixes L :: nat
  assumes "j < L" "j' < L" "L * r + j = L * r' + j'"
  shows "r = r' \<and> j = j'"
proof -
  from assms have "(L * r + j) div L = (L * r' + j') div L" by simp
  with assms(1,2) have "r = r'" by simp
  with assms(3) show ?thesis by simp
qed

lemma slot_lt:
  fixes L :: nat
  assumes "j < L" "r < S"
  shows "L * r + j < S * L"
proof -
  from assms have "L * r + j < L * r + L" by simp
  also have "\<dots> = L * Suc r" by simp
  also from assms have "\<dots> \<le> L * S" by (intro mult_le_mono2) simp
  finally show ?thesis by (simp add: mult.commute)
qed

lemma slot_addr_inj:
  fixes b :: addr and L :: "64 word"
  assumes "S * unat L \<le> 2 ^ 64" "r < S" "r' < S" "j < unat L" "j' < unat L"
    and "b + L * of_nat r + of_nat j = b + L * of_nat r' + of_nat j'"
  shows "r = r' \<and> j = j'"
proof -
  from assms(6) have "(of_nat (unat L * r + j) :: addr) = of_nat (unat L * r' + j')"
    by (simp only: slot_addr add_left_cancel)
  moreover from assms have "unat L * r + j < 2 ^ 64" "unat L * r' + j' < 2 ^ 64"
    using slot_lt [of j "unat L" r S] slot_lt [of j' "unat L" r' S] by simp_all
  ultimately have "unat L * r + j = unat L * r' + j'" by (rule of_nat64_inj [rotated 2])
  with assms(4,5) show ?thesis by (rule slot_index_inj)
qed

lemma test_check_loop_all:
  assumes "\<forall>r\<in>set rs. kv s (teamr_key i (int r)) \<noteq> None"
  shows "\<exists>s'. test_check_loop i rs s = (Inr True, s') \<and> kv s' = kv s
     \<and> reachable s' = reachable s
     \<and> oplog s' = oplog s @ map (\<lambda>r. OpCheck [teamr_key i (int r)]) rs"
  using assms
proof (induction rs arbitrary: s)
  case Nil
  show ?case by simp
next
  case (Cons r rs)
  let ?s1 = "served (OpCheck [teamr_key i (int r)]) s"
  from Cons.prems have "\<forall>r\<in>set rs. kv ?s1 (teamr_key i (int r)) \<noteq> None" by simp
  from Cons.IH [OF this] obtain s' where
    "test_check_loop i rs ?s1 = (Inr True, s')" "kv s' = kv ?s1" "reachable s' = reachable ?s1"
    "oplog s' = oplog ?s1 @ map (\<lambda>r. OpCheck [teamr_key i (int r)]) rs" by blast
  moreover from Cons.prems have "kv s (teamr_key i (int r)) \<noteq> None" by simp
  ultimately show ?case by (simp add: store_check_single)
qed

lemma test_copy_loop_all:
  fixes i :: torch_ucc_oob_coll_info_t
  assumes "\<forall>r\<in>set rs. r < S \<and> kv s (teamr_key i (int r)) = Some (Bytes (pub r))
             \<and> length (pub r) = unat (msglen i)"
    and "distinct rs" and "S * unat (msglen i) \<le> 2 ^ 64"
  shows "\<exists>s' m'. test_copy_loop i rs s m = Some (Inr (), s', m') \<and> kv s' = kv s
     \<and> reachable s' = reachable s
     \<and> oplog s' = oplog s @ map (\<lambda>r. OpGet (teamr_key i (int r))) rs
     \<and> (\<forall>r\<in>set rs. \<forall>j<unat (msglen i). m' (rbuf i + msglen i * of_nat r + of_nat j) = pub r ! j)
     \<and> (\<forall>a. (\<forall>r\<in>set rs. \<forall>j<unat (msglen i). a \<noteq> rbuf i + msglen i * of_nat r + of_nat j)
            \<longrightarrow> m' a = m a)"
  using assms(1,2)
proof (induction rs arbitrary: s m)
  case Nil
  show ?case by simp
next
  case (Cons r rs)
  let ?L = "unat (msglen i)"
  let ?A = "\<lambda>r j. rbuf i + msglen i * of_nat r + of_nat j"
  let ?s1 = "served (OpGet (teamr_key i (int r))) s"
  from Cons.prems have r: "r < S" "kv s (teamr_key i (int r)) = Some (Bytes (pub r))"
    "length (pub r) = ?L" and nin: "r \<notin> set rs" by simp_all
  from r(2) have get: "store_get (teamr_key i (int r)) s = (Inr (pub r), ?s1)"
    by (simp add: store_get_def)
  from r(3) obtain m1 where m1: "memcpy m (rbuf i + msglen i * of_nat r) (pub r) ?L = Some m1"
    using memcpy_Some [of ?L "pub r"] by auto
  have L64: "?L \<le> 2 ^ 64" using unsigned_less [of "msglen i", where 'a = nat] by simp
  from Cons.prems have "\<forall>r\<in>set rs. r < S \<and> kv ?s1 (teamr_key i (int r)) = Some (Bytes (pub r))
       \<and> length (pub r) = ?L" "distinct rs" by simp_all
  from Cons.IH [OF this, of m1] obtain s' m' where
    run: "test_copy_loop i rs ?s1 m1 = Some (Inr (), s', m')"
    and st: "kv s' = kv ?s1" "reachable s' = reachable ?s1"
      "oplog s' = oplog ?s1 @ map (\<lambda>r. OpGet (teamr_key i (int r))) rs"
    and inside: "\<forall>r\<in>set rs. \<forall>j<?L. m' (?A r j) = pub r ! j"
    and outside: "\<forall>a. (\<forall>r\<in>set rs. \<forall>j<?L. a \<noteq> ?A r j) \<longrightarrow> m' a = m1 a"
    by blast
  have own: "m' (?A r j) = pub r ! j" if j: "j < ?L" for j
  proof -
    have "\<forall>r'\<in>set rs. \<forall>j'<?L. ?A r j \<noteq> ?A r' j'"
    proof (intro ballI allI impI notI)
      fix r' j' assume r': "r' \<in> set rs" and j': "j' < ?L" and e: "?A r j = ?A r' j'"
      from r' Cons.prems(1) have "r' < S" by simp
      from slot_addr_inj [OF assms(3) r(1) this j j' e] have "r = r'" by simp
      with r' nin show False by simp
    qed
    with outside have "m' (?A r j) = m1 (?A r j)" by blast
    also from m1 L64 j have "\<dots> = pub r ! j" by (rule memcpy_at)
    finally show ?thesis .
  qed
  have rest: "m' a = m a" if a: "\<forall>r'\<in>set (r # rs). \<forall>j<?L. a \<noteq> ?A r' j" for a
  proof -
    from a outside have "m' a = m1 a" by simp
    also from m1 a have "\<dots> = m a" by (intro memcpy_other [OF m1]) simp
    finally show ?thesis .
  qed
  from get m1 run have "test_copy_loop i (r # rs) s m = Some (Inr (), s', m')" by simp
  moreover have "kv s' = kv s" "reachable s' = reachable s"
    "oplog s' = oplog s @ map (\<lambda>r. OpGet (teamr_key i (int r))) (r # rs)"
    using st by simp_all
  moreover have "\<forall>r'\<in>set (r # rs). \<forall>j<?L. m' (?A r' j) = pub r' ! j"
    using own inside by simp
  moreover have "\<forall>a. (\<forall>r'\<in>set (r # rs). \<forall>j<?L. a \<noteq> ?A r' j) \<longrightarrow> m' a = m a"
    using rest by blast
  ultimately show ?case by blast
qed

lemma read_bytes_length [simp]: "length (read_bytes m p n) = n"
  by (simp add: read_bytes_def)

lemma read_bytes_nth: "j < n \<Longrightarrow> read_bytes m p n ! j = m (p + of_nat j)"
  by (simp add: read_bytes_def)

lemma read_bytes_append:
  "read_bytes m p (a + b) = read_bytes m p a @ read_bytes m (p + of_nat a) b"
  by (rule nth_equalityI) (auto simp: read_bytes_nth nth_append add.assoc)

lemma read_bytes_blocks:
  fixes L :: "64 word"
  assumes "\<forall>r<S. read_bytes m (b + L * of_nat r) (unat L) = pub r" and "k \<le> S"
  shows "read_bytes m b (k * unat L) = concat (map pub [0..<k])"
  using assms(2)
proof (induction k)
  case 0
  show ?case by (simp add: read_bytes_def)
next
  case (Suc k)
  have e: "(of_nat (k * unat L) :: 64 word) = L * of_nat k" by (simp add: mult.commute)
  from Suc have k: "read_bytes m b (k * unat L) = concat (map pub [0..<k])" and "k < S" by simp_all
  with assms(1) have blk: "read_bytes m (b + L * of_nat k) (unat L) = pub k" by blast
  have "read_bytes m b (Suc k * unat L) = read_bytes m b (k * unat L + unat L)"
    by (simp add: add.commute)
  also have "\<dots> = concat (map pub [0..<k]) @ pub k"
    unfolding read_bytes_append e k blk ..
  finally show ?case by simp
qed

subsection \<open>The concrete rounds\<close>

lemma ex_keys:
  "teamr_key ex_info 0 = ''7teamr0''" "teamr_key ex_info 1 = ''7teamr1''"
  "teamr_key ex_info 2 = ''7teamr2''"
  by (simp_all add: teamr_key_def getKey_def to_string_def nat_digits.simps digit_char_def ex_info_def)

lemma ex_info_fields:
  "rank ex_info = 1" "size' ex_info = 3" "comm_id ex_info = 7"
  by (simp_all add: ex_info_def)

lemma teamr_key_more [simp]:
  "teamr_key (i\<lparr>rbuf := a\<rparr>) r = teamr_key i r" "teamr_key (i\<lparr>msglen := b\<rparr>) r = teamr_key i r"
  by (simp_all add: teamr_key_def getKey_def)

lemma ex_read_sbuf: "read_bytes ex_sbuf_mem 16 4 = [5, 6, 7, 8]"
  by (simp add: read_bytes_def ex_sbuf_mem_def upt_rec)

section \<open>Claims about the rendezvous\<close>

text \<open>
  C1. Once every publish key \<open>teamr<r>\<close>, \<open>r < size\<close>, holds \<open>msglen\<close> published
  bytes, \<open>oob_allgather_test\<close> returns \<open>UCC_OK\<close> and leaves peer \<open>r\<close>'s bytes at
  \<open>rbuf + msglen * r\<close>, so the \<open>size * msglen\<close> bytes at \<open>rbuf\<close> are the
  concatenation of the published buffers by ascending rank. The keys are checked and then
  read in ascending rank order, whatever the history of the store (the order in which the
  publications arrived) was. The product \<open>size * msglen\<close> is a \<open>size_t\<close>: the
  receive buffer fits the address space.
\<close>

theorem oob_allgather_test_gathers:
  assumes pubs: "\<forall>r<nat (size' (info w)).
       kv (store w) (teamr_key (info w) (int r)) = Some (Bytes (pub r))
       \<and> length (pub r) = unat (msglen (info w))"
    and fits: "nat (size' (info w)) * unat (msglen (info w)) \<le> 2 ^ 64"
  shows "\<exists>w'. oob_allgather_test w = Some (UCC_OK, w')
     \<and> (\<forall>r<nat (size' (info w)).
           read_bytes (mem w') (rbuf (info w) + msglen (info w) * of_nat r)
             (unat (msglen (info w))) = pub r)
     \<and> read_bytes (mem w') (rbuf (info w)) (nat (size' (info w)) * unat (msglen (info w)))
         = concat (map pub [0..<nat (size' (info w))])
     \<and> oplog (store w') = oplog (store w)
         @ map (\<lambda>r. OpCheck [teamr_key (info w) (int r)]) [0..<nat (size' (info w))]
         @ map (\<lambda>r. OpGet (teamr_key (info w) (int r))) [0..<nat (size' (info w))]
     \<and> kv (store w') = kv (store w) \<and> info w' = info w \<and> req w' = req w"
proof -
  let ?i = "info w" and ?S = "nat (size' (info w))" and ?L = "unat (msglen (info w))"
  from pubs have "\<forall>r\<in>set [0..<?S]. kv (store w) (teamr_key ?i (int r)) \<noteq> None" by simp
  from test_check_loop_all [OF this] obtain s1 where
    chk: "test_check_loop ?i [0..<?S] (store w) = (Inr True, s1)" and s1: "kv s1 = kv (store w)"
    "oplog s1 = oplog (store w) @ map (\<lambda>r. OpCheck [teamr_key ?i (int r)]) [0..<?S]" by blast
  from pubs s1(1) have "\<forall>r\<in>set [0..<?S]. r < ?S
      \<and> kv s1 (teamr_key ?i (int r)) = Some (Bytes (pub r)) \<and> length (pub r) = ?L" by simp
  from test_copy_loop_all [OF this _ fits, of "mem w"] obtain s2 m2 where
    cp: "test_copy_loop ?i [0..<?S] s1 (mem w) = Some (Inr (), s2, m2)"
    and s2: "kv s2 = kv s1" "oplog s2 = oplog s1 @ map (\<lambda>r. OpGet (teamr_key ?i (int r))) [0..<?S]"
    and inside: "\<forall>r\<in>set [0..<?S]. \<forall>j<?L.
        m2 (rbuf ?i + msglen ?i * of_nat r + of_nat j) = pub r ! j"
    by auto
  have blk: "read_bytes m2 (rbuf ?i + msglen ?i * of_nat r) ?L = pub r" if "r < ?S" for r
  proof (rule nth_equalityI)
    from that pubs show "length (read_bytes m2 (rbuf ?i + msglen ?i * of_nat r) ?L) = length (pub r)"
      by simp
  next
    fix j assume "j < length (read_bytes m2 (rbuf ?i + msglen ?i * of_nat r) ?L)"
    then have "j < ?L" by simp
    with that inside show "read_bytes m2 (rbuf ?i + msglen ?i * of_nat r) ?L ! j = pub r ! j"
      by (simp add: read_bytes_nth)
  qed
  then have all: "read_bytes m2 (rbuf ?i) (?S * ?L) = concat (map pub [0..<?S])"
    by (intro read_bytes_blocks [where S = ?S]) simp_all
  let ?w' = "w\<lparr>store := s2, mem := m2\<rparr>"
  from chk cp have "oob_allgather_test w = Some (UCC_OK, ?w')"
    by (simp add: oob_allgather_test_def Let_def)
  moreover from blk have "\<forall>r<?S. read_bytes (mem ?w') (rbuf ?i + msglen ?i * of_nat r) ?L = pub r"
    by simp
  moreover from all have "read_bytes (mem ?w') (rbuf ?i) (?S * ?L) = concat (map pub [0..<?S])"
    by simp
  moreover from s1 s2 have "oplog (store ?w') = oplog (store w)
         @ map (\<lambda>r. OpCheck [teamr_key ?i (int r)]) [0..<?S]
         @ map (\<lambda>r. OpGet (teamr_key ?i (int r))) [0..<?S]"
    "kv (store ?w') = kv (store w)" "info ?w' = info w" "req ?w' = req w" by simp_all
  ultimately show ?thesis by blast
qed

theorem oob_allgather_test_gathers_witness:
  "\<exists>w'. oob_allgather_test ex_full_world = Some (UCC_OK, w')
     \<and> read_bytes (mem w') 4096 12 = [1, 2, 3, 4, 5, 6, 7, 8, 9, 10, 11, 12]
     \<and> oplog (store w') = oplog ex_full_store
         @ [OpCheck [''7teamr0''], OpCheck [''7teamr1''], OpCheck [''7teamr2''],
            OpGet ''7teamr0'', OpGet ''7teamr1'', OpGet ''7teamr2'']"
proof -
  have S: "nat (size' (info ex_full_world)) = 3" and L: "unat (msglen (info ex_full_world)) = 4"
    and b: "rbuf (info ex_full_world) = 4096"
    by (simp_all add: ex_full_world_def ex_info_fields)
  have k: "teamr_key (info ex_full_world) (int r) = teamr_key ex_info (int r)" for r
    by (simp add: ex_full_world_def)
  have u: "[0..<3] = [0, 1, 2]" by (simp add: upt_rec)
  have h1: "\<forall>r<nat (size' (info ex_full_world)).
       kv (store ex_full_world) (teamr_key (info ex_full_world) (int r)) = Some (Bytes (ex_pub r))
       \<and> length (ex_pub r) = unat (msglen (info ex_full_world))"
    unfolding S L k
  proof (intro allI impI)
    fix r :: nat assume "r < 3"
    then consider "r = 0" | "r = 1" | "r = 2" by linarith
    then show "kv (store ex_full_world) (teamr_key ex_info (int r)) = Some (Bytes (ex_pub r))
       \<and> length (ex_pub r) = 4"
      by cases (simp_all add: ex_keys ex_full_world_def ex_full_store_def ex_pub_def)
  qed
  have h2: "nat (size' (info ex_full_world)) * unat (msglen (info ex_full_world)) \<le> 2 ^ 64"
    unfolding S L by simp
  from oob_allgather_test_gathers [OF h1 h2] obtain w' where
    t: "oob_allgather_test ex_full_world = Some (UCC_OK, w')"
    and c: "read_bytes (mem w') (rbuf (info ex_full_world))
        (nat (size' (info ex_full_world)) * unat (msglen (info ex_full_world)))
         = concat (map ex_pub [0..<nat (size' (info ex_full_world))])"
    and l: "oplog (store w') = oplog (store ex_full_world)
         @ map (\<lambda>r. OpCheck [teamr_key (info ex_full_world) (int r)])
             [0..<nat (size' (info ex_full_world))]
         @ map (\<lambda>r. OpGet (teamr_key (info ex_full_world) (int r)))
             [0..<nat (size' (info ex_full_world))]" by blast
  from c have "read_bytes (mem w') 4096 12 = [1, 2, 3, 4, 5, 6, 7, 8, 9, 10, 11, 12]"
    unfolding S L b by (simp add: u ex_pub_def)
  moreover from l have "oplog (store w') = oplog ex_full_store
         @ [OpCheck [''7teamr0''], OpCheck [''7teamr1''], OpCheck [''7teamr2''],
            OpGet ''7teamr0'', OpGet ''7teamr1'', OpGet ''7teamr2'']"
    unfolding S k by (simp add: u ex_keys ex_full_world_def)
  ultimately show ?thesis using t by blast
qed

text \<open>
  C4. While some publish key \<open>teamr<r>\<close>, \<open>r < size\<close>, is absent, every call of
  \<open>oob_allgather_test\<close>, after any number \<open>n\<close> of earlier calls, returns
  \<open>UCC_INPROGRESS\<close> and changes neither the memory (so no byte of the receive buffer)
  nor the contents of the store, the struct or the request slot.
\<close>

theorem oob_allgather_test_in_progress:
  assumes "r < nat (size' (info w))" and "kv (store w) (teamr_key (info w) (int r)) = None"
  shows "\<exists>w'. oob_allgather_test ((poll_again ^^ n) w) = Some (UCC_INPROGRESS, w')
     \<and> mem w' = mem w \<and> kv (store w') = kv (store w) \<and> info w' = info w \<and> req w' = req w"
proof -
  let ?w = "(poll_again ^^ n) w"
  note p = poll_again_pending [OF assms, of n]
  with assms have "r < nat (size' (info ?w))" "kv (store ?w) (teamr_key (info ?w) (int r)) = None"
    by simp_all
  from test_in_progress_once [OF this] obtain s' where
    "oob_allgather_test ?w = Some (UCC_INPROGRESS, ?w\<lparr>store := s'\<rparr>)" "kv s' = kv (store ?w)" by blast
  with p show ?thesis by simp
qed

theorem oob_allgather_test_in_progress_witness:
  "\<exists>w'. oob_allgather_test ((poll_again ^^ 3) ex_partial_world) = Some (UCC_INPROGRESS, w')
     \<and> mem w' = ex_sbuf_mem \<and> kv (store w') ''7teamr2'' = None
     \<and> kv (store w') ''7teamr0'' = Some (Bytes [1, 2, 3, 4])
     \<and> info w' = ex_info\<lparr>rbuf := 4096, msglen := 4\<rparr> \<and> req w' = 64"
proof -
  have h1: "2 < nat (size' (info ex_partial_world))"
    by (simp add: ex_partial_world_def ex_full_world_def ex_info_fields)
  have h2: "kv (store ex_partial_world) (teamr_key (info ex_partial_world) (int 2)) = None"
    by (simp add: ex_partial_world_def ex_full_world_def ex_keys)
  from oob_allgather_test_in_progress [OF h1 h2, of 3] obtain w' where
    t: "oob_allgather_test ((poll_again ^^ 3) ex_partial_world) = Some (UCC_INPROGRESS, w')"
    and m: "mem w' = mem ex_partial_world" and k: "kv (store w') = kv (store ex_partial_world)"
    and i: "info w' = info ex_partial_world" and q: "req w' = req ex_partial_world" by blast
  have "mem w' = ex_sbuf_mem" "kv (store w') ''7teamr2'' = None"
    "kv (store w') ''7teamr0'' = Some (Bytes [1, 2, 3, 4])"
    "info w' = ex_info\<lparr>rbuf := 4096, msglen := 4\<rparr>" "req w' = 64"
    unfolding m k i q by (simp_all add: ex_partial_world_def ex_full_world_def ex_full_store_def)
  with t show ?thesis by blast
qed

text \<open>
  C5, as amended. \<open>oob_allgather\<close> issues exactly one store operation, a \<open>set\<close> of
  the \<open>msglen\<close> bytes at \<open>sbuf\<close> under the key \<open>teamr<rank>\<close>. When the set
  succeeds it records the caller's \<open>rbuf\<close> pointer and \<open>msglen\<close> in the struct, stores
  the struct's address in the request slot and returns \<open>UCC_OK\<close>; it allocates nothing
  and the memory is unchanged. When the set throws it returns \<open>UCC_ERR_NO_MESSAGE\<close> and
  leaves the struct and the request slot as they were.
\<close>

theorem oob_allgather_publishes:
  "(reachable (store w) \<longrightarrow>
      oob_allgather sbuf rbuf_arg msglen_arg coll_info w =
        (UCC_OK,
         w\<lparr>store := (store w)
              \<lparr>kv := (kv (store w))
                 (teamr_key (info w) (rank (info w)) \<mapsto>
                    Bytes (read_bytes (mem w) sbuf (unat msglen_arg))),
               oplog := oplog (store w) @
                 [OpSet (teamr_key (info w) (rank (info w)))
                    (read_bytes (mem w) sbuf (unat msglen_arg))]\<rparr>,
           info := (info w)\<lparr>rbuf := rbuf_arg, msglen := msglen_arg\<rparr>,
           req := coll_info\<rparr>))
   \<and> (\<not> reachable (store w) \<longrightarrow>
      oob_allgather sbuf rbuf_arg msglen_arg coll_info w =
        (UCC_ERR_NO_MESSAGE,
         w\<lparr>store := (store w)
              \<lparr>oplog := oplog (store w) @
                 [OpSet (teamr_key (info w) (rank (info w)))
                    (read_bytes (mem w) sbuf (unat msglen_arg))]\<rparr>\<rparr>))"
  by (simp add: oob_allgather_def store_set_def served_def Let_def)

theorem oob_allgather_publishes_witness:
  "oob_allgather 16 4096 4 64 ex_idle_world =
     (UCC_OK,
      ex_idle_world
        \<lparr>store := \<lparr>kv = [''7teamr1'' \<mapsto> Bytes [5, 6, 7, 8]], reachable = True,
                    oplog = [OpSet ''7teamr1'' [5, 6, 7, 8]]\<rparr>,
         info := ex_info\<lparr>rbuf := 4096, msglen := 4\<rparr>, req := 64\<rparr>)
   \<and> oob_allgather 16 4096 4 64 ex_down_world =
     (UCC_ERR_NO_MESSAGE,
      ex_down_world
        \<lparr>store := \<lparr>kv = Map.empty, reachable = False,
                    oplog = [OpSet ''7teamr1'' [5, 6, 7, 8]]\<rparr>\<rparr>)"
  using oob_allgather_publishes [of ex_idle_world 16 4096 4 64]
    oob_allgather_publishes [of ex_down_world 16 4096 4 64]
  by (simp add: ex_idle_world_def ex_down_world_def ex_keys ex_read_sbuf ex_info_fields)

text \<open>
  C5 as stated fails: the receive buffer of the request is whatever pointer the caller
  passes (two calls that differ only in \<open>rbuf\<close> record two different buffers, and the
  memory is the same after the call as before), and a call whose \<open>set\<close> throws leaves
  the struct and the request slot untouched: nothing records an error state.
\<close>

theorem oob_allgather_counterexample:
  "rbuf (info (snd (oob_allgather 16 4096 4 64 ex_idle_world))) = 4096
   \<and> rbuf (info (snd (oob_allgather 16 8192 4 64 ex_idle_world))) = 8192
   \<and> mem (snd (oob_allgather 16 4096 4 64 ex_idle_world)) = mem ex_idle_world
   \<and> fst (oob_allgather 16 4096 4 64 ex_down_world) = UCC_ERR_NO_MESSAGE
   \<and> info (snd (oob_allgather 16 4096 4 64 ex_down_world)) = info ex_down_world
   \<and> req (snd (oob_allgather 16 4096 4 64 ex_down_world)) = req ex_down_world"
  by (simp add: oob_allgather_def store_set_def Let_def ex_idle_world_def ex_down_world_def)

subsection \<open>The keys of a round are distinct\<close>

lemma getKey_inj [simp]: "getKey i a = getKey i b \<longleftrightarrow> a = b"
  by (simp add: getKey_def)

lemma getKey_rank [simp]: "getKey (i\<lparr>rank := r\<rparr>) = getKey i"
  by (rule ext) (simp add: getKey_def)

lemma keys_rank [simp]:
  "ag_done_key (i\<lparr>rank := r\<rparr>) = ag_done_key i"
  "teamr_key (i\<lparr>rank := r\<rparr>) = teamr_key i"
  "ag_free_key (i\<lparr>rank := r\<rparr>) = ag_free_key i"
  by (rule ext | simp add: ag_done_key_def teamr_key_def ag_free_key_def)+

lemma round_keys_distinct [simp]:
  "teamr_key i r = teamr_key i r' \<longleftrightarrow> r = r'"
  "ag_free_key i r = ag_free_key i r' \<longleftrightarrow> r = r'"
  "ag_done_key i \<noteq> teamr_key i r" "teamr_key i r \<noteq> ag_done_key i"
  "ag_done_key i \<noteq> ag_free_key i r" "ag_free_key i r \<noteq> ag_done_key i"
  "teamr_key i r \<noteq> ag_free_key i r'" "ag_free_key i r' \<noteq> teamr_key i r"
  by (auto simp: ag_done_key_def teamr_key_def ag_free_key_def dest: to_string_inj)

subsection \<open>The release call running alone\<close>

lemma narrow_int_id: "- (2 ^ 31) \<le> n \<Longrightarrow> n < 2 ^ 31 \<Longrightarrow> narrow_int n = n"
  by (simp add: narrow_int_def signed_of_int signed_take_bit_int_eq_self)

lemma store_deleteKey_eq:
  "store_deleteKey k s = (Inr (), s\<lparr>kv := (kv s)(k := None), oplog := oplog s @ [OpDeleteKey k]\<rparr>)"
  by (simp add: store_deleteKey_def served_def)

lemma store_add_cases:
  "store_add k d s = (Inr n, s') \<longleftrightarrow>
     (kv s k = None \<and> n = d \<or> (\<exists>c. kv s k = Some (Counter c) \<and> n = c + d))
     \<and> s' = s\<lparr>kv := (kv s)(k \<mapsto> Counter n), oplog := oplog s @ [OpAdd k d]\<rparr>"
  by (auto simp: store_add_def served_def split: option.splits store_value.splits)

lemma store_add_ok:
  "\<forall>b. kv s k \<noteq> Some (Bytes b) \<Longrightarrow>
   \<exists>n. store_add k d s = (Inr n, s\<lparr>kv := (kv s)(k \<mapsto> Counter n), oplog := oplog s @ [OpAdd k d]\<rparr>)"
  by (auto simp: store_add_def served_def split: option.splits store_value.splits)

lemma free_run_Returned [simp]: "free_run i (Returned st) s = (Returned st, s)"
  by (simp add: free_run.simps)

lemma free_run_step: "free_step i pc s = Some (pc', s') \<Longrightarrow> free_run i pc s = free_run i pc' s'"
  by (subst free_run.simps) simp

lemma free_run_blocked: "free_step i pc s = None \<Longrightarrow> free_run i pc s = (pc, s)"
  by (subst free_run.simps) simp

lemma free_run_DelOwnFree:
  "free_run i DelOwnFree s =
     (Returned UCC_OK,
      s\<lparr>kv := (kv s)(ag_free_key i (rank i) := None),
        oplog := oplog s @ [OpDeleteKey (ag_free_key i (rank i))]\<rparr>)"
  by (subst free_run.simps) (simp add: store_deleteKey_eq)

lemma free_run_WaitFree_blocked:
  "kv s (ag_free_key i (rank i)) = None \<Longrightarrow> free_run i WaitFree s = (WaitFree, s)"
  by (rule free_run_blocked) (simp add: store_wait_def)

lemma free_run_WaitFree_released:
  "kv s (ag_free_key i (rank i)) \<noteq> None \<Longrightarrow>
   free_run i WaitFree s =
     (Returned UCC_OK,
      s\<lparr>kv := (kv s)(ag_free_key i (rank i) := None),
        oplog := oplog s @ [OpWait [ag_free_key i (rank i)], OpDeleteKey (ag_free_key i (rank i))]\<rparr>)"
  by (subst free_run.simps) (auto simp: store_wait_def served_def free_run_DelOwnFree)

lemma free_run_DelTeamr:
  "r \<le> nat (size' i) \<Longrightarrow>
   \<exists>s'. free_run i (DelTeamr r) s = free_run i (AddFree 0) s'
     \<and> oplog s' = oplog s @ map (\<lambda>q. OpDeleteKey (teamr_key i (int q))) [r..<nat (size' i)]
     \<and> (\<forall>k. kv s' k = (if \<exists>q. r \<le> q \<and> q < nat (size' i) \<and> k = teamr_key i (int q) then None else kv s k))"
proof (induction "nat (size' i) - r" arbitrary: r s)
  case 0
  then have "\<not> int r < size' i" "r = nat (size' i)" by linarith+
  then have "free_run i (DelTeamr r) s = free_run i (AddFree 0) s"
    by (intro free_run_step) simp
  with \<open>r = nat (size' i)\<close> show ?case by auto
next
  case (Suc d)
  then have lt: "int r < size' i" and le: "Suc r \<le> nat (size' i)" and d: "d = nat (size' i) - Suc r"
    by linarith+
  let ?s1 = "s\<lparr>kv := (kv s)(teamr_key i (int r) := None),
               oplog := oplog s @ [OpDeleteKey (teamr_key i (int r))]\<rparr>"
  from lt have st: "free_run i (DelTeamr r) s = free_run i (DelTeamr (Suc r)) ?s1"
    by (intro free_run_step) (simp add: store_deleteKey_eq)
  from Suc.hyps(1) [OF d le, of ?s1] obtain s' where
    run: "free_run i (DelTeamr (Suc r)) ?s1 = free_run i (AddFree 0) s'"
    and log: "oplog s' = oplog ?s1 @ map (\<lambda>q. OpDeleteKey (teamr_key i (int q))) [Suc r..<nat (size' i)]"
    and kvs: "\<forall>k. kv s' k = (if \<exists>q. Suc r \<le> q \<and> q < nat (size' i) \<and> k = teamr_key i (int q) then None else kv ?s1 k)"
    by blast
  from le have upt: "[r..<nat (size' i)] = r # [Suc r..<nat (size' i)]" by (simp add: upt_rec)
  have "kv s' k = (if \<exists>q. r \<le> q \<and> q < nat (size' i) \<and> k = teamr_key i (int q) then None else kv s k)" for k
  proof (cases "k = teamr_key i (int r)")
    case True
    with kvs le show ?thesis by auto
  next
    case False
    have e: "(\<exists>q. Suc r \<le> q \<and> q < nat (size' i) \<and> k = teamr_key i (int q))
        \<longleftrightarrow> (\<exists>q. r \<le> q \<and> q < nat (size' i) \<and> k = teamr_key i (int q))"
      using False by (metis Suc_leD Suc_leI le_neq_implies_less)
    from kvs have "kv s' k = (if \<exists>q. Suc r \<le> q \<and> q < nat (size' i) \<and> k = teamr_key i (int q)
        then None else kv ?s1 k)" by blast
    also have "\<dots> = (if \<exists>q. r \<le> q \<and> q < nat (size' i) \<and> k = teamr_key i (int q)
        then None else kv s k)"
    proof -
      from False have "kv ?s1 k = kv s k" by simp
      then show ?thesis unfolding e by presburger
    qed
    finally show ?thesis .
  qed
  then have k': "\<forall>k. kv s' k =
      (if \<exists>q. r \<le> q \<and> q < nat (size' i) \<and> k = teamr_key i (int q) then None else kv s k)"
    by blast
  from st run have "free_run i (DelTeamr r) s = free_run i (AddFree 0) s'" by simp
  moreover from log upt have
    "oplog s' = oplog s @ map (\<lambda>q. OpDeleteKey (teamr_key i (int q))) [r..<nat (size' i)]"
    by simp
  ultimately show ?case using k' by blast
qed

lemma free_run_AddFree:
  assumes "r \<le> nat (size' i)"
    and "\<forall>q b. r \<le> q \<and> q < nat (size' i) \<longrightarrow> kv s (ag_free_key i (int q)) \<noteq> Some (Bytes b)"
  shows "\<exists>s'. free_run i (AddFree r) s = free_run i DelOwnFree s'
     \<and> oplog s' = oplog s @ map (\<lambda>q. OpAdd (ag_free_key i (int q)) 1) [r..<nat (size' i)]
     \<and> (\<forall>k. (\<forall>q. r \<le> q \<and> q < nat (size' i) \<longrightarrow> k \<noteq> ag_free_key i (int q)) \<longrightarrow> kv s' k = kv s k)
     \<and> (\<forall>q. r \<le> q \<and> q < nat (size' i) \<longrightarrow> kv s' (ag_free_key i (int q)) \<noteq> None)"
  using assms
proof (induction "nat (size' i) - r" arbitrary: r s)
  case 0
  then have "\<not> int r < size' i" "r = nat (size' i)" by linarith+
  then have "free_run i (AddFree r) s = free_run i DelOwnFree s"
    by (intro free_run_step) simp
  with \<open>r = nat (size' i)\<close> show ?case by auto
next
  case (Suc d)
  then have lt: "int r < size' i" and le: "Suc r \<le> nat (size' i)" and d: "d = nat (size' i) - Suc r"
    and rlt: "r < nat (size' i)"
    by linarith+
  from Suc.prems(2) rlt have "\<forall>b. kv s (ag_free_key i (int r)) \<noteq> Some (Bytes b)" by simp
  from store_add_ok [OF this, of 1] obtain n where
    add: "store_add (ag_free_key i (int r)) 1 s =
      (Inr n, s\<lparr>kv := (kv s)(ag_free_key i (int r) \<mapsto> Counter n),
                oplog := oplog s @ [OpAdd (ag_free_key i (int r)) 1]\<rparr>)" by blast
  let ?s1 = "s\<lparr>kv := (kv s)(ag_free_key i (int r) \<mapsto> Counter n),
                oplog := oplog s @ [OpAdd (ag_free_key i (int r)) 1]\<rparr>"
  from lt add have st: "free_run i (AddFree r) s = free_run i (AddFree (Suc r)) ?s1"
    by (intro free_run_step) simp
  from Suc.prems(2) have
    "\<forall>q b. Suc r \<le> q \<and> q < nat (size' i) \<longrightarrow> kv ?s1 (ag_free_key i (int q)) \<noteq> Some (Bytes b)"
    by simp
  from Suc.hyps(1) [OF d le this] obtain s' where
    run: "free_run i (AddFree (Suc r)) ?s1 = free_run i DelOwnFree s'"
    and log: "oplog s' = oplog ?s1 @ map (\<lambda>q. OpAdd (ag_free_key i (int q)) 1) [Suc r..<nat (size' i)]"
    and other: "\<forall>k. (\<forall>q. Suc r \<le> q \<and> q < nat (size' i) \<longrightarrow> k \<noteq> ag_free_key i (int q)) \<longrightarrow> kv s' k = kv ?s1 k"
    and made: "\<forall>q. Suc r \<le> q \<and> q < nat (size' i) \<longrightarrow> kv s' (ag_free_key i (int q)) \<noteq> None"
    by blast
  from le have upt: "[r..<nat (size' i)] = r # [Suc r..<nat (size' i)]" by (simp add: upt_rec)
  have o: "kv s' k = kv s k" if "\<forall>q. r \<le> q \<and> q < nat (size' i) \<longrightarrow> k \<noteq> ag_free_key i (int q)" for k
  proof -
    from that rlt have "k \<noteq> ag_free_key i (int r)" by blast
    moreover from that have "\<forall>q. Suc r \<le> q \<and> q < nat (size' i) \<longrightarrow> k \<noteq> ag_free_key i (int q)" by simp
    ultimately show ?thesis using other by simp
  qed
  have m: "kv s' (ag_free_key i (int q)) \<noteq> None" if "r \<le> q \<and> q < nat (size' i)" for q
  proof (cases "q = r")
    case True
    have "\<forall>q'. Suc r \<le> q' \<and> q' < nat (size' i) \<longrightarrow> ag_free_key i (int r) \<noteq> ag_free_key i (int q')"
      by simp
    with other have "kv s' (ag_free_key i (int r)) = kv ?s1 (ag_free_key i (int r))" by blast
    with True show ?thesis by simp
  next
    case False
    with that made show ?thesis by simp
  qed
  from st run have "free_run i (AddFree r) s = free_run i DelOwnFree s'" by simp
  moreover from log upt have
    "oplog s' = oplog s @ map (\<lambda>q. OpAdd (ag_free_key i (int q)) 1) [r..<nat (size' i)]"
    by simp
  ultimately show ?case using o m by blast
qed

text \<open>
  C2. The first step of \<open>oob_allgather_free\<close> is the atomic increment of
  \<open>ag_done\<close>; \<open>n\<close> is the value it returns (it is assigned to an \<open>int\<close>, so it is
  taken in the range of one). If \<open>n\<close> equals \<open>size\<close>, the call deletes
  \<open>ag_done\<close>, then every \<open>teamr<r>\<close>, then makes every \<open>ag_free<r>\<close> with an
  \<open>add\<close>, deletes its own release key and returns \<open>UCC_OK\<close>: the operations it
  issues are exactly these, in this order (the release keys hold no published bytes, on
  which the store's \<open>add\<close> would throw). If \<open>n\<close> is less than \<open>size\<close>, the call
  goes to the \<open>wait\<close>: it cannot move while its release key is absent, and once the
  key is there it waits successfully, deletes the key and returns \<open>UCC_OK\<close>.
\<close>

theorem oob_allgather_free_protocol:
  assumes add: "store_add (ag_done_key i) 1 s = (Inr n, s1)"
    and range: "- (2 ^ 31) \<le> n" "n < 2 ^ 31"
  shows "free_step i AddDone s = Some (if n = size' i then DelDone else WaitFree, s1)
    \<and> oplog s1 = oplog s @ [OpAdd (ag_done_key i) 1]
    \<and> (n = size' i \<and> (\<forall>r b. int r < size' i \<longrightarrow> kv s (ag_free_key i (int r)) \<noteq> Some (Bytes b)) \<longrightarrow>
         (\<exists>s'. oob_allgather_free i s = (Returned UCC_OK, s')
            \<and> oplog s' = oplog s
                 @ [OpAdd (ag_done_key i) 1, OpDeleteKey (ag_done_key i)]
                 @ map (\<lambda>r. OpDeleteKey (teamr_key i (int r))) [0..<nat (size' i)]
                 @ map (\<lambda>r. OpAdd (ag_free_key i (int r)) 1) [0..<nat (size' i)]
                 @ [OpDeleteKey (ag_free_key i (rank i))]
            \<and> kv s' (ag_done_key i) = None
            \<and> (\<forall>r. int r < size' i \<longrightarrow> kv s' (teamr_key i (int r)) = None
                   \<and> (int r \<noteq> rank i \<longrightarrow> kv s' (ag_free_key i (int r)) \<noteq> None))
            \<and> kv s' (ag_free_key i (rank i)) = None))
    \<and> (n < size' i \<longrightarrow>
         oob_allgather_free i s = free_run i WaitFree s1
         \<and> (\<forall>s2. kv s2 (ag_free_key i (rank i)) = None \<longrightarrow>
               free_step i WaitFree s2 = None \<and> free_run i WaitFree s2 = (WaitFree, s2))
         \<and> (\<forall>s2. kv s2 (ag_free_key i (rank i)) \<noteq> None \<longrightarrow>
               free_run i WaitFree s2 =
                 (Returned UCC_OK,
                  s2\<lparr>kv := (kv s2)(ag_free_key i (rank i) := None),
                     oplog := oplog s2 @ [OpWait [ag_free_key i (rank i)],
                                          OpDeleteKey (ag_free_key i (rank i))]\<rparr>)))"
proof -
  let ?S = "nat (size' i)"
  from range have nar: "narrow_int n = n" by (rule narrow_int_id)
  from add have s1: "s1 = s\<lparr>kv := (kv s)(ag_done_key i \<mapsto> Counter n),
      oplog := oplog s @ [OpAdd (ag_done_key i) 1]\<rparr>"
    by (simp add: store_add_cases)
  from add nar have first: "free_step i AddDone s = Some (if n = size' i then DelDone else WaitFree, s1)"
    by simp
  have log1: "oplog s1 = oplog s @ [OpAdd (ag_done_key i) 1]" by (simp add: s1)
  have last: "\<exists>s'. oob_allgather_free i s = (Returned UCC_OK, s')
            \<and> oplog s' = oplog s
                 @ [OpAdd (ag_done_key i) 1, OpDeleteKey (ag_done_key i)]
                 @ map (\<lambda>r. OpDeleteKey (teamr_key i (int r))) [0..<?S]
                 @ map (\<lambda>r. OpAdd (ag_free_key i (int r)) 1) [0..<?S]
                 @ [OpDeleteKey (ag_free_key i (rank i))]
            \<and> kv s' (ag_done_key i) = None
            \<and> (\<forall>r. int r < size' i \<longrightarrow> kv s' (teamr_key i (int r)) = None
                   \<and> (int r \<noteq> rank i \<longrightarrow> kv s' (ag_free_key i (int r)) \<noteq> None))
            \<and> kv s' (ag_free_key i (rank i)) = None"
    if n: "n = size' i"
      and nb: "\<forall>r b. int r < size' i \<longrightarrow> kv s (ag_free_key i (int r)) \<noteq> Some (Bytes b)"
  proof -
    let ?s2 = "s1\<lparr>kv := (kv s1)(ag_done_key i := None),
                  oplog := oplog s1 @ [OpDeleteKey (ag_done_key i)]\<rparr>"
    from first n have r1: "oob_allgather_free i s = free_run i DelDone s1"
      unfolding oob_allgather_free_def by (intro free_run_step) simp
    have r2: "free_run i DelDone s1 = free_run i (DelTeamr 0) ?s2"
      by (intro free_run_step) (simp add: store_deleteKey_eq)
    from free_run_DelTeamr [of 0 i ?s2] obtain s3 where
      r3: "free_run i (DelTeamr 0) ?s2 = free_run i (AddFree 0) s3"
      and log3: "oplog s3 = oplog ?s2 @ map (\<lambda>q. OpDeleteKey (teamr_key i (int q))) [0..<?S]"
      and kv3: "\<forall>k. kv s3 k = (if \<exists>q. 0 \<le> q \<and> q < ?S \<and> k = teamr_key i (int q) then None else kv ?s2 k)"
      by auto
    have f3: "kv s3 (ag_free_key i r) = kv s (ag_free_key i r)" for r
      using kv3 by (simp add: s1)
    with nb have "\<forall>q b. 0 \<le> q \<and> q < ?S \<longrightarrow> kv s3 (ag_free_key i (int q)) \<noteq> Some (Bytes b)"
      by simp
    from free_run_AddFree [OF _ this] obtain s4 where
      r4: "free_run i (AddFree 0) s3 = free_run i DelOwnFree s4"
      and log4: "oplog s4 = oplog s3 @ map (\<lambda>q. OpAdd (ag_free_key i (int q)) 1) [0..<?S]"
      and other4: "\<forall>k. (\<forall>q. 0 \<le> q \<and> q < ?S \<longrightarrow> k \<noteq> ag_free_key i (int q)) \<longrightarrow> kv s4 k = kv s3 k"
      and made4: "\<forall>q. 0 \<le> q \<and> q < ?S \<longrightarrow> kv s4 (ag_free_key i (int q)) \<noteq> None"
      by auto
    let ?s5 = "s4\<lparr>kv := (kv s4)(ag_free_key i (rank i) := None),
                  oplog := oplog s4 @ [OpDeleteKey (ag_free_key i (rank i))]\<rparr>"
    have r5: "free_run i DelOwnFree s4 = (Returned UCC_OK, ?s5)" by (rule free_run_DelOwnFree)
    from r1 r2 r3 r4 r5 have run: "oob_allgather_free i s = (Returned UCC_OK, ?s5)" by simp
    have log: "oplog ?s5 = oplog s
                 @ [OpAdd (ag_done_key i) 1, OpDeleteKey (ag_done_key i)]
                 @ map (\<lambda>r. OpDeleteKey (teamr_key i (int r))) [0..<?S]
                 @ map (\<lambda>r. OpAdd (ag_free_key i (int r)) 1) [0..<?S]
                 @ [OpDeleteKey (ag_free_key i (rank i))]"
      by (simp add: log4 log3 log1)
    have d4: "kv s4 (ag_done_key i) = kv s3 (ag_done_key i)" using other4 by simp
    have d3: "kv s3 (ag_done_key i) = None" using kv3 by simp
    have dn: "kv ?s5 (ag_done_key i) = None" using d4 d3 by simp
    have keys: "kv ?s5 (teamr_key i (int r)) = None
        \<and> (int r \<noteq> rank i \<longrightarrow> kv ?s5 (ag_free_key i (int r)) \<noteq> None)" if "int r < size' i" for r
    proof -
      from that have rS: "r < ?S" by simp
      have "kv s4 (teamr_key i (int r)) = kv s3 (teamr_key i (int r))" using other4 by simp
      also from rS have "\<dots> = None" using kv3 by auto
      finally have "kv ?s5 (teamr_key i (int r)) = None" by simp
      moreover from rS made4 have "int r \<noteq> rank i \<longrightarrow> kv ?s5 (ag_free_key i (int r)) \<noteq> None"
        by simp
      ultimately show ?thesis by blast
    qed
    have own: "kv ?s5 (ag_free_key i (rank i)) = None" by simp
    from run log dn keys own show ?thesis by blast
  qed
  have wait: "oob_allgather_free i s = free_run i WaitFree s1" if "n < size' i"
    using first that unfolding oob_allgather_free_def by (intro free_run_step) simp
  have blocked: "free_step i WaitFree s2 = None \<and> free_run i WaitFree s2 = (WaitFree, s2)"
    if "kv s2 (ag_free_key i (rank i)) = None" for s2
    using that by (simp add: free_run_WaitFree_blocked store_wait_def)
  from first log1 last wait blocked free_run_WaitFree_released show ?thesis by blast
qed

lemma ex_release_keys:
  "ag_done_key ex_info = ''7ag_done''"
  "ag_free_key ex_info 0 = ''7ag_free0''" "ag_free_key ex_info 1 = ''7ag_free1''"
  "ag_free_key ex_info 2 = ''7ag_free2''"
  by (simp_all add: ag_done_key_def ag_free_key_def getKey_def to_string_def nat_digits.simps
      digit_char_def ex_info_def)

lemma upt_3: "[0..<3] = [0, 1, 2]"
  by (simp add: upt_rec)

theorem oob_allgather_free_protocol_witness:
  "(\<exists>s'. oob_allgather_free ex_info ex_last_store = (Returned UCC_OK, s')
      \<and> oplog s' = oplog ex_last_store
           @ [OpAdd ''7ag_done'' 1, OpDeleteKey ''7ag_done'',
              OpDeleteKey ''7teamr0'', OpDeleteKey ''7teamr1'', OpDeleteKey ''7teamr2'',
              OpAdd ''7ag_free0'' 1, OpAdd ''7ag_free1'' 1, OpAdd ''7ag_free2'' 1,
              OpDeleteKey ''7ag_free1'']
      \<and> kv s' ''7ag_done'' = None \<and> kv s' ''7ag_free1'' = None)
   \<and> free_step ex_info AddDone ex_full_store = Some (WaitFree, ex_waiting_store)
   \<and> oob_allgather_free ex_info ex_full_store = (WaitFree, ex_waiting_store)
   \<and> free_run ex_info WaitFree ex_released_store =
        (Returned UCC_OK,
         ex_waiting_store\<lparr>oplog := oplog ex_waiting_store
            @ [OpWait [''7ag_free1''], OpDeleteKey ''7ag_free1'']\<rparr>)"
proof -
  let ?s1 = "ex_last_store\<lparr>kv := (kv ex_last_store)(''7ag_done'' \<mapsto> Counter 3),
      oplog := oplog ex_last_store @ [OpAdd ''7ag_done'' 1]\<rparr>"
  have a1: "store_add (ag_done_key ex_info) 1 ex_last_store = (Inr 3, ?s1)"
    by (simp add: store_add_def served_def ex_release_keys ex_last_store_def)
  have nb: "\<forall>r b. int r < size' ex_info \<longrightarrow>
      kv ex_last_store (ag_free_key ex_info (int r)) \<noteq> Some (Bytes b)"
  proof (intro allI impI)
    fix r :: nat and b assume "int r < size' ex_info"
    then consider "r = 0" | "r = 1" | "r = 2" by (simp add: ex_info_fields) linarith
    then show "kv ex_last_store (ag_free_key ex_info (int r)) \<noteq> Some (Bytes b)"
      by cases (simp_all add: ex_release_keys ex_last_store_def ex_full_store_def)
  qed
  from oob_allgather_free_protocol [OF a1] nb obtain s' where
    l1: "oob_allgather_free ex_info ex_last_store = (Returned UCC_OK, s')"
    and l2: "oplog s' = oplog ex_last_store
         @ [OpAdd (ag_done_key ex_info) 1, OpDeleteKey (ag_done_key ex_info)]
         @ map (\<lambda>r. OpDeleteKey (teamr_key ex_info (int r))) [0..<nat (size' ex_info)]
         @ map (\<lambda>r. OpAdd (ag_free_key ex_info (int r)) 1) [0..<nat (size' ex_info)]
         @ [OpDeleteKey (ag_free_key ex_info (rank ex_info))]"
    and l3: "kv s' (ag_done_key ex_info) = None"
    and l4: "kv s' (ag_free_key ex_info (rank ex_info)) = None"
    by (auto simp: ex_info_fields)
  have a2: "store_add (ag_done_key ex_info) 1 ex_full_store = (Inr 1, ex_waiting_store)"
    by (simp add: store_add_def served_def ex_release_keys ex_waiting_store_def ex_full_store_def)
  note w = oob_allgather_free_protocol [OF a2]
  have w1: "free_step ex_info AddDone ex_full_store = Some (WaitFree, ex_waiting_store)"
    using w by (simp add: ex_info_fields)
  have k1: "kv ex_waiting_store (ag_free_key ex_info (rank ex_info)) = None"
    by (simp add: ex_info_fields ex_release_keys ex_waiting_store_def ex_full_store_def)
  have k2: "kv ex_released_store (ag_free_key ex_info (rank ex_info)) \<noteq> None"
    by (simp add: ex_info_fields ex_release_keys ex_released_store_def)
  have w2: "oob_allgather_free ex_info ex_full_store = (WaitFree, ex_waiting_store)"
    using w k1 by (simp add: ex_info_fields)
  have w3: "free_run ex_info WaitFree ex_released_store =
        (Returned UCC_OK,
         ex_released_store\<lparr>kv := (kv ex_released_store)(ag_free_key ex_info (rank ex_info) := None),
           oplog := oplog ex_released_store
            @ [OpWait [ag_free_key ex_info (rank ex_info)],
               OpDeleteKey (ag_free_key ex_info (rank ex_info))]\<rparr>)"
    using w k2 by (simp add: ex_info_fields)
  have e: "ex_released_store\<lparr>kv := (kv ex_released_store)(''7ag_free1'' := None),
           oplog := oplog ex_released_store @ [OpWait [''7ag_free1''], OpDeleteKey ''7ag_free1'']\<rparr>
      = ex_waiting_store\<lparr>oplog := oplog ex_waiting_store
            @ [OpWait [''7ag_free1''], OpDeleteKey ''7ag_free1'']\<rparr>"
    by (simp add: ex_released_store_def ex_waiting_store_def ex_full_store_def)
  from l2 have l2': "oplog s' = oplog ex_last_store
           @ [OpAdd ''7ag_done'' 1, OpDeleteKey ''7ag_done'',
              OpDeleteKey ''7teamr0'', OpDeleteKey ''7teamr1'', OpDeleteKey ''7teamr2'',
              OpAdd ''7ag_free0'' 1, OpAdd ''7ag_free1'' 1, OpAdd ''7ag_free2'' 1,
              OpDeleteKey ''7ag_free1'']"
    by (simp add: ex_info_fields ex_release_keys ex_keys upt_3)
  from l3 l4 have l5: "kv s' ''7ag_done'' = None" "kv s' ''7ag_free1'' = None"
    by (simp_all add: ex_info_fields ex_release_keys)
  from w3 e have w3': "free_run ex_info WaitFree ex_released_store =
        (Returned UCC_OK,
         ex_waiting_store\<lparr>oplog := oplog ex_waiting_store
            @ [OpWait [''7ag_free1''], OpDeleteKey ''7ag_free1'']\<rparr>)"
    by (simp add: ex_info_fields ex_release_keys)
  from l1 l2' l5 w1 w2 w3' show ?thesis by blast
qed

subsection \<open>What one step of a peer does to the contents of the store\<close>

lemma release_step_outside:
  "\<not> int p < size' base \<Longrightarrow> release_step base p g = g"
  by (simp add: release_step_def split: prod.splits)

lemma release_step_AddDone:
  assumes "int p < size' base" "pcs p = AddDone"
    and "kv s (ag_done_key base) = None \<and> n = 1 \<or> kv s (ag_done_key base) = Some (Counter (n - 1))"
  shows "\<exists>s'. release_step base p (s, pcs) =
           (s', pcs(p := if narrow_int n = size' base then DelDone else WaitFree))
         \<and> kv s' = (kv s)(ag_done_key base \<mapsto> Counter n)"
  using assms by (auto simp: release_step_def store_add_def served_def)

lemma release_step_DelDone:
  assumes "int p < size' base" "pcs p = DelDone"
  shows "\<exists>s'. release_step base p (s, pcs) = (s', pcs(p := DelTeamr 0))
         \<and> kv s' = (kv s)(ag_done_key base := None)"
  using assms by (simp add: release_step_def store_deleteKey_eq)

lemma release_step_DelTeamr:
  assumes "int p < size' base" "pcs p = DelTeamr j" "int j < size' base"
  shows "\<exists>s'. release_step base p (s, pcs) = (s', pcs(p := DelTeamr (Suc j)))
         \<and> kv s' = (kv s)(teamr_key base (int j) := None)"
  using assms by (simp add: release_step_def store_deleteKey_eq)

lemma release_step_DelTeamr_exit:
  assumes "int p < size' base" "pcs p = DelTeamr j" "\<not> int j < size' base"
  shows "release_step base p (s, pcs) = (s, pcs(p := AddFree 0))"
  using assms by (simp add: release_step_def)

lemma release_step_AddFree:
  assumes "int p < size' base" "pcs p = AddFree j" "int j < size' base"
    and "kv s (ag_free_key base (int j)) = None"
  shows "\<exists>s'. release_step base p (s, pcs) = (s', pcs(p := AddFree (Suc j)))
         \<and> kv s' = (kv s)(ag_free_key base (int j) \<mapsto> Counter 1)"
  using assms by (simp add: release_step_def store_add_def served_def)

lemma release_step_AddFree_exit:
  assumes "int p < size' base" "pcs p = AddFree j" "\<not> int j < size' base"
  shows "release_step base p (s, pcs) = (s, pcs(p := DelOwnFree))"
  using assms by (simp add: release_step_def)

lemma release_step_WaitFree_blocked:
  assumes "pcs p = WaitFree" "kv s (ag_free_key base (int p)) = None"
  shows "release_step base p (s, pcs) = (s, pcs)"
  using assms by (simp add: release_step_def store_wait_def)

lemma release_step_WaitFree:
  assumes "int p < size' base" "pcs p = WaitFree" "kv s (ag_free_key base (int p)) \<noteq> None"
  shows "\<exists>s'. release_step base p (s, pcs) = (s', pcs(p := DelOwnFree)) \<and> kv s' = kv s"
  using assms by (auto simp: release_step_def store_wait_def)

lemma release_step_DelOwnFree:
  assumes "int p < size' base" "pcs p = DelOwnFree"
  shows "\<exists>s'. release_step base p (s, pcs) = (s', pcs(p := Returned UCC_OK))
         \<and> kv s' = (kv s)(ag_free_key base (int p) := None)"
  using assms by (simp add: release_step_def store_deleteKey_eq)

lemma release_step_Returned:
  assumes "pcs p = Returned st"
  shows "release_step base p (s, pcs) = (s, pcs)"
  using assms by (simp add: release_step_def)

subsection \<open>Counting the peers that have incremented the counter\<close>

lemma started_finite [simp]: "finite (started pcs S)"
  by (simp add: started_def)

lemma started_upd:
  assumes "p < S" "pcs p = AddDone" "pc' \<noteq> AddDone"
  shows "started (pcs(p := pc')) S = insert p (started pcs S)" and "p \<notin> started pcs S"
  using assms by (auto simp: started_def)

lemma started_card_less:
  assumes "p < S" "pcs p = AddDone"
  shows "card (started pcs S) < S"
proof -
  from assms have "started pcs S \<subseteq> {..<S} - {p}" by (auto simp: started_def)
  then have "card (started pcs S) \<le> card ({..<S} - {p})" by (intro card_mono) simp_all
  also from assms have "\<dots> = S - 1" by simp
  finally show ?thesis using assms by simp
qed

lemma started_all_but:
  assumes "p < S" "pcs p = AddDone" "Suc (card (started pcs S)) = S" "q < S" "q \<noteq> p"
  shows "pcs q \<noteq> AddDone"
proof -
  from assms have sub: "started pcs S \<subseteq> {..<S} - {p}" by (auto simp: started_def)
  from assms have "card ({..<S} - {p}) = card (started pcs S)" by simp
  with sub have "started pcs S = {..<S} - {p}" by (intro card_subset_eq) simp_all
  with assms have "q \<in> started pcs S" by simp
  then show ?thesis by (simp add: started_def)
qed

subsection \<open>Every step keeps the invariant\<close>

lemma gathering_step:
  assumes int: "size' base < 2 ^ 31" and g: "gathering base g"
  shows "round_inv base (release_step base p g)"
proof (cases "int p < size' base")
  case False
  with g show ?thesis by (simp add: release_step_outside round_inv_def)
next
  case True
  obtain s pcs where gs: "g = (s, pcs)" by (cases g)
  let ?S = "nat (size' base)"
  let ?k = "card (started pcs ?S)"
  from True have pS: "p < ?S" by simp
  from g gs have pcs: "\<forall>q<?S. pcs q = AddDone \<or> pcs q = WaitFree"
    and cnt: "kv s (ag_done_key base) = (if started pcs ?S = {} then None else Some (Counter (int ?k)))"
    and fr: "\<forall>r<?S. kv s (ag_free_key base (int r)) = None"
    by (simp_all add: gathering_def)
  from pcs pS consider "pcs p = AddDone" | "pcs p = WaitFree" by blast
  then show ?thesis
  proof cases
    case 2
    with fr pS have "release_step base p (s, pcs) = (s, pcs)"
      by (intro release_step_WaitFree_blocked) simp_all
    with g gs show ?thesis by (simp add: round_inv_def)
  next
    case 1
    let ?n = "int ?k + 1"
    from cnt have c: "kv s (ag_done_key base) = None \<and> ?n = 1
        \<or> kv s (ag_done_key base) = Some (Counter (?n - 1))"
      by (auto split: if_splits)
    from pS 1 have kS: "?k < ?S" by (rule started_card_less [where pcs = pcs])
    with int have "- (2 ^ 31) \<le> ?n" "?n < 2 ^ 31" by linarith+
    then have nar: "narrow_int ?n = ?n" by (rule narrow_int_id)
    from release_step_AddDone [where pcs = pcs and p = p and n = ?n, OF True 1 c] nar obtain s' where
      st: "release_step base p (s, pcs) = (s', pcs(p := if ?n = size' base then DelDone else WaitFree))"
      and kv': "kv s' = (kv s)(ag_done_key base \<mapsto> Counter ?n)" by auto
    show ?thesis
    proof (cases "?n = size' base")
      case True
      then have full: "Suc ?k = ?S" by linarith
      let ?pcs' = "pcs(p := DelDone)"
      have others: "\<forall>q<?S. q \<noteq> p \<longrightarrow> pcs q = WaitFree"
        using started_all_but [where pcs = pcs, OF pS 1 full] pcs by blast
      have "releasing base p (s', ?pcs')"
        unfolding releasing_def using pS others kv' fr True by simp
      with st True gs show ?thesis by (auto simp: round_inv_def)
    next
      case False
      let ?pcs' = "pcs(p := WaitFree)"
      have su: "started ?pcs' ?S = insert p (started pcs ?S)" "p \<notin> started pcs ?S"
        using started_upd [where pcs = pcs and pc' = WaitFree, OF pS 1] by simp_all
      then have "card (started ?pcs' ?S) = Suc ?k" "started ?pcs' ?S \<noteq> {}" by simp_all
      moreover from False kS have "Suc ?k < ?S" by linarith
      ultimately have "gathering base (s', ?pcs')"
        unfolding gathering_def using pcs kv' fr by simp
      with st False gs show ?thesis by (simp add: round_inv_def)
    qed
  qed
qed

lemma releasing_step_last:
  assumes r: "releasing base L (s, pcs)"
  shows "releasing base L (release_step base L (s, pcs))"
proof -
  let ?S = "nat (size' base)"
  from r have LS: "L < ?S" by (simp add: releasing_def)
  then have iL: "int L < size' base" by linarith
  from r have stage: "last_stage ?S (pcs L)" by (simp add: releasing_def)
  show ?thesis
  proof (cases "pcs L")
    case AddDone
    with stage show ?thesis by simp
  next
    case WaitFree
    with stage show ?thesis by simp
  next
    case DelDone
    from release_step_DelDone [where pcs = pcs and p = L, OF iL DelDone] obtain s' where
      "release_step base L (s, pcs) = (s', pcs(L := DelTeamr 0))"
      "kv s' = (kv s)(ag_done_key base := None)" by blast
    with r DelDone show ?thesis by (simp add: releasing_def)
  next
    case (DelTeamr j)
    show ?thesis
    proof (cases "int j < size' base")
      case True
      from release_step_DelTeamr [where pcs = pcs and p = L, OF iL DelTeamr True] obtain s' where
        "release_step base L (s, pcs) = (s', pcs(L := DelTeamr (Suc j)))"
        "kv s' = (kv s)(teamr_key base (int j) := None)" by blast
      with r DelTeamr True show ?thesis by (auto simp: releasing_def less_Suc_eq)
    next
      case False
      from release_step_DelTeamr_exit [where pcs = pcs and p = L, OF iL DelTeamr False]
      have "release_step base L (s, pcs) = (s, pcs(L := AddFree 0))" .
      with r DelTeamr False show ?thesis by (auto simp: releasing_def)
    qed
  next
    case (AddFree j)
    show ?thesis
    proof (cases "int j < size' base")
      case True
      then have jS: "j < ?S" by simp
      have pj: "pcs j = WaitFree" if "j \<noteq> L"
        using r AddFree that jS by (auto simp: releasing_def)
      have "kv s (ag_free_key base (int j)) = None"
      proof (cases "j = L")
        case True
        with r AddFree show ?thesis by (simp add: releasing_def)
      next
        case False
        with r AddFree jS pj show ?thesis by (auto simp: releasing_def)
      qed
      from release_step_AddFree [where pcs = pcs and p = L, OF iL AddFree True this] obtain s' where
        "release_step base L (s, pcs) = (s', pcs(L := AddFree (Suc j)))"
        "kv s' = (kv s)(ag_free_key base (int j) \<mapsto> Counter 1)" by blast
      with r AddFree True pj show ?thesis by (auto simp: releasing_def less_Suc_eq)
    next
      case False
      from release_step_AddFree_exit [where pcs = pcs and p = L, OF iL AddFree False]
      have "release_step base L (s, pcs) = (s, pcs(L := DelOwnFree))" .
      with r AddFree False show ?thesis by (auto simp: releasing_def)
    qed
  next
    case DelOwnFree
    from release_step_DelOwnFree [where pcs = pcs and p = L, OF iL DelOwnFree] obtain s' where
      "release_step base L (s, pcs) = (s', pcs(L := Returned UCC_OK))"
      "kv s' = (kv s)(ag_free_key base (int L) := None)" by blast
    with r DelOwnFree show ?thesis by (auto simp: releasing_def)
  next
    case (Returned st)
    with r show ?thesis by (simp add: release_step_Returned)
  qed
qed

lemma releasing_step_other:
  assumes r: "releasing base L (s, pcs)" and pL: "p \<noteq> L"
  shows "releasing base L (release_step base p (s, pcs))"
proof (cases "int p < size' base")
  case False
  with r show ?thesis by (simp add: release_step_outside)
next
  case True
  let ?S = "nat (size' base)"
  from True have pS: "p < ?S" by simp
  from r pS pL consider "pcs p = WaitFree" | "pcs p = DelOwnFree" | "pcs p = Returned UCC_OK"
    by (auto simp: releasing_def)
  then show ?thesis
  proof cases
    case 1
    show ?thesis
    proof (cases "kv s (ag_free_key base (int p)) = None")
      case True
      with 1 r show ?thesis by (simp add: release_step_WaitFree_blocked)
    next
      case False
      from release_step_WaitFree [where pcs = pcs and p = p, OF True 1 False] obtain s' where
        st: "release_step base p (s, pcs) = (s', pcs(p := DelOwnFree))" "kv s' = kv s" by blast
      from r pS pL 1 False have "free_added (pcs L) p" by (auto simp: releasing_def split: if_splits)
      with r pL pS 1 st show ?thesis by (auto simp: releasing_def)
    qed
  next
    case 2
    from release_step_DelOwnFree [where pcs = pcs and p = p, OF True 2] obtain s' where
      st: "release_step base p (s, pcs) = (s', pcs(p := Returned UCC_OK))"
      "kv s' = (kv s)(ag_free_key base (int p) := None)" by blast
    with r pL pS 2 show ?thesis by (auto simp: releasing_def)
  next
    case 3
    with r show ?thesis by (simp add: release_step_Returned)
  qed
qed

lemma round_inv_step:
  assumes "size' base < 2 ^ 31" and "round_inv base g"
  shows "round_inv base (release_step base p g)"
proof -
  from assms(2) consider "gathering base g" | L where "releasing base L g"
    by (auto simp: round_inv_def)
  then show ?thesis
  proof cases
    case 1
    with assms(1) show ?thesis by (rule gathering_step)
  next
    case 2
    obtain s pcs where g: "g = (s, pcs)" by (cases g)
    from 2 g have "releasing base L (release_step base p (s, pcs))"
      by (cases "p = L") (simp_all add: releasing_step_last releasing_step_other)
    with g show ?thesis by (auto simp: round_inv_def)
  qed
qed

lemma round_inv_run:
  assumes "size' base < 2 ^ 31" and "round_inv base g"
  shows "round_inv base (release_run base sched g)"
  using assms(2) unfolding release_run_def
  by (induction sched arbitrary: g) (simp_all add: round_inv_step [OF assms(1)])

lemma round_inv_start:
  assumes "kv s (ag_done_key base) = None"
    and "\<forall>r. int r < size' base \<longrightarrow> kv s (ag_free_key base (int r)) = None"
  shows "round_inv base (s, \<lambda>p. AddDone)"
  using assms by (simp add: round_inv_def gathering_def started_def)

lemma round_inv_finished:
  assumes "round_inv base (s, pcs)" and "\<forall>p. int p < size' base \<longrightarrow> pcs p = Returned UCC_OK"
  shows "kv s (ag_done_key base) = None
    \<and> (\<forall>r. int r < size' base \<longrightarrow>
          kv s (teamr_key base (int r)) = None \<and> kv s (ag_free_key base (int r)) = None)"
proof -
  from assms(1) consider "gathering base (s, pcs)" | L where "releasing base L (s, pcs)"
    by (auto simp: round_inv_def)
  then show ?thesis
  proof cases
    case 1
    show ?thesis
    proof (cases "0 < size' base")
      case True
      with assms(2) have "pcs 0 = Returned UCC_OK" by simp
      moreover from 1 True have "pcs 0 = AddDone \<or> pcs 0 = WaitFree" by (simp add: gathering_def)
      ultimately show ?thesis by simp
    next
      case False
      then have "started pcs (nat (size' base)) = {}" by (simp add: started_def)
      with 1 False show ?thesis by (simp add: gathering_def)
    qed
  next
    case 2
    then have "L < nat (size' base)" by (simp add: releasing_def)
    then have L: "int L < size' base" by linarith
    with assms(2) have pL: "pcs L = Returned UCC_OK" by simp
    have "kv s (teamr_key base (int r)) = None \<and> kv s (ag_free_key base (int r)) = None"
      if "int r < size' base" for r
    proof -
      from that assms(2) have "pcs r = Returned UCC_OK" by simp
      with 2 pL that show ?thesis by (cases "r = L") (auto simp: releasing_def)
    qed
    moreover from 2 pL have "kv s (ag_done_key base) = None" by (simp add: releasing_def)
    ultimately show ?thesis by blast
  qed
qed

text \<open>
  C3. The peers of a round, ranks \<open>0\<close> to \<open>size - 1\<close>, call
  \<open>oob_allgather_free\<close> on a store in which the counter key and the release keys do not
  exist yet, and their steps interleave in any order \<open>sched\<close>. Once every peer has
  returned \<open>UCC_OK\<close>, the store holds neither \<open>ag_done\<close> nor any \<open>teamr<r>\<close> or
  \<open>ag_free<r>\<close> with \<open>r < size\<close>. (That the peers can all return is
  \<open>release_round_can_complete\<close> below.)
\<close>

theorem release_drains_namespace:
  assumes "size' base < 2 ^ 31"
    and "kv s0 (ag_done_key base) = None"
    and "\<forall>r. int r < size' base \<longrightarrow> kv s0 (ag_free_key base (int r)) = None"
    and "release_run base sched (s0, \<lambda>p. AddDone) = (s, pcs)"
    and "\<forall>p. int p < size' base \<longrightarrow> pcs p = Returned UCC_OK"
  shows "kv s (ag_done_key base) = None
    \<and> (\<forall>r. int r < size' base \<longrightarrow>
          kv s (teamr_key base (int r)) = None \<and> kv s (ag_free_key base (int r)) = None)"
proof -
  from assms(2,3) have "round_inv base (s0, \<lambda>p. AddDone)" by (rule round_inv_start)
  with assms(1) have "round_inv base (release_run base sched (s0, \<lambda>p. AddDone))"
    by (rule round_inv_run)
  with assms(4) have "round_inv base (s, pcs)" by simp
  then show ?thesis using assms(5) by (rule round_inv_finished)
qed

lemma ex_release_run_pcs:
  "snd (release_run ex_info ex_schedule (ex_full_store, \<lambda>p. AddDone)) 0 = Returned UCC_OK"
  "snd (release_run ex_info ex_schedule (ex_full_store, \<lambda>p. AddDone)) 1 = Returned UCC_OK"
  "snd (release_run ex_info ex_schedule (ex_full_store, \<lambda>p. AddDone)) (Suc (Suc 0)) = Returned UCC_OK"
  by (simp_all add: release_run_def ex_schedule_def release_step_def ex_info_fields
      ex_release_keys ex_keys store_add_def store_deleteKey_def store_wait_def served_def
      ex_full_store_def narrow_int_def)

theorem release_drains_namespace_witness:
  "snd (release_run ex_info ex_schedule (ex_full_store, \<lambda>p. AddDone)) 0 = Returned UCC_OK
   \<and> snd (release_run ex_info ex_schedule (ex_full_store, \<lambda>p. AddDone)) 1 = Returned UCC_OK
   \<and> snd (release_run ex_info ex_schedule (ex_full_store, \<lambda>p. AddDone)) 2 = Returned UCC_OK
   \<and> kv (fst (release_run ex_info ex_schedule (ex_full_store, \<lambda>p. AddDone))) ''7ag_done'' = None
   \<and> kv (fst (release_run ex_info ex_schedule (ex_full_store, \<lambda>p. AddDone))) ''7teamr0'' = None
   \<and> kv (fst (release_run ex_info ex_schedule (ex_full_store, \<lambda>p. AddDone))) ''7teamr1'' = None
   \<and> kv (fst (release_run ex_info ex_schedule (ex_full_store, \<lambda>p. AddDone))) ''7teamr2'' = None
   \<and> kv (fst (release_run ex_info ex_schedule (ex_full_store, \<lambda>p. AddDone))) ''7ag_free0'' = None
   \<and> kv (fst (release_run ex_info ex_schedule (ex_full_store, \<lambda>p. AddDone))) ''7ag_free1'' = None
   \<and> kv (fst (release_run ex_info ex_schedule (ex_full_store, \<lambda>p. AddDone))) ''7ag_free2'' = None"
proof -
  let ?g = "release_run ex_info ex_schedule (ex_full_store, \<lambda>p. AddDone)"
  have two: "(2::nat) = Suc (Suc 0)" by simp
  have h1: "size' ex_info < 2 ^ 31" by (simp add: ex_info_fields)
  have h2: "kv ex_full_store (ag_done_key ex_info) = None"
    by (simp add: ex_release_keys ex_full_store_def)
  have three: "r = 0 \<or> r = 1 \<or> r = 2" if "int r < size' ex_info" for r :: nat
    using that by (simp add: ex_info_fields) linarith
  have h3: "\<forall>r. int r < size' ex_info \<longrightarrow> kv ex_full_store (ag_free_key ex_info (int r)) = None"
  proof (intro allI impI)
    fix r :: nat assume "int r < size' ex_info"
    from three [OF this] show "kv ex_full_store (ag_free_key ex_info (int r)) = None"
      by (auto simp: ex_release_keys ex_full_store_def)
  qed
  have h4: "?g = (fst ?g, snd ?g)" by simp
  have h5: "\<forall>p. int p < size' ex_info \<longrightarrow> snd ?g p = Returned UCC_OK"
    using three ex_release_run_pcs by (auto simp: two)
  note d = release_drains_namespace [OF h1 h2 h3 h4 h5]
  from d have "kv (fst ?g) ''7ag_done'' = None" by (simp add: ex_release_keys)
  moreover have k: "kv (fst ?g) (teamr_key ex_info (int r)) = None
      \<and> kv (fst ?g) (ag_free_key ex_info (int r)) = None" if "int r < size' ex_info" for r
    using d that by blast
  have "kv (fst ?g) ''7teamr0'' = None" "kv (fst ?g) ''7teamr1'' = None"
    "kv (fst ?g) ''7teamr2'' = None" "kv (fst ?g) ''7ag_free0'' = None"
    "kv (fst ?g) ''7ag_free1'' = None" "kv (fst ?g) ''7ag_free2'' = None"
    using k [of 0] k [of 1] k [of 2] by (simp_all add: ex_info_fields ex_keys ex_release_keys)
  moreover note ex_release_run_pcs [folded two]
  ultimately show ?thesis by blast
qed

subsection \<open>The release round completes\<close>

lemma free_step_decreases:
  "free_step i pc s = Some (pc', s') \<Longrightarrow> free_steps_left i pc' < free_steps_left i pc"
  by (cases pc)
    (auto simp: store_add_def store_deleteKey_def store_wait_def
      split: option.splits store_value.splits if_splits)

lemma free_steps_left_rank [simp]:
  "free_steps_left (i\<lparr>rank := r\<rparr>) pc = free_steps_left i pc"
  by (cases pc) simp_all

lemma release_step_cases:
  assumes "int p < size' base"
  shows "release_step base p (s, pcs) = (s, pcs)
    \<or> (\<exists>pc' s'. release_step base p (s, pcs) = (s', pcs(p := pc'))
          \<and> free_steps_left base pc' < free_steps_left base (pcs p))"
proof (cases "free_step (base\<lparr>rank := int p\<rparr>) (pcs p) s")
  case None
  with assms show ?thesis by (simp add: release_step_def)
next
  case (Some a)
  obtain pc' s' where a: "a = (pc', s')" by (cases a)
  from Some a have "free_steps_left (base\<lparr>rank := int p\<rparr>) pc'
      < free_steps_left (base\<lparr>rank := int p\<rparr>) (pcs p)"
    by (intro free_step_decreases) simp
  then have "free_steps_left base pc' < free_steps_left base (pcs p)" by simp
  moreover from Some a assms have "release_step base p (s, pcs) = (s', pcs(p := pc'))"
    by (simp add: release_step_def)
  ultimately show ?thesis by blast
qed

lemma round_steps_left_upd:
  assumes "p < nat (size' base)" "free_steps_left base pc' < free_steps_left base (pcs p)"
  shows "round_steps_left base (pcs(p := pc')) < round_steps_left base pcs"
proof -
  let ?A = "{..<nat (size' base)}"
  let ?f = "\<lambda>pcs q. free_steps_left base (pcs q)"
  from assms(1) have p: "p \<in> ?A" by simp
  have "sum (?f (pcs(p := pc'))) ?A = ?f (pcs(p := pc')) p + sum (?f (pcs(p := pc'))) (?A - {p})"
    using p by (intro sum.remove) simp_all
  also have "sum (?f (pcs(p := pc'))) (?A - {p}) = sum (?f pcs) (?A - {p})"
    by (intro sum.cong) simp_all
  also have "?f (pcs(p := pc')) p < ?f pcs p" using assms(2) by simp
  then have "?f (pcs(p := pc')) p + sum (?f pcs) (?A - {p}) < ?f pcs p + sum (?f pcs) (?A - {p})"
    by simp
  also have "?f pcs p + sum (?f pcs) (?A - {p}) = sum (?f pcs) ?A"
    using p by (intro sum.remove [symmetric]) simp_all
  finally show ?thesis by (simp add: round_steps_left_def)
qed

lemma gathering_progress:
  assumes g: "gathering base (s, pcs)" and pos: "0 < size' base"
  shows "\<exists>p. int p < size' base \<and> release_step base p (s, pcs) \<noteq> (s, pcs)"
proof -
  let ?S = "nat (size' base)"
  from g pos have less: "card (started pcs ?S) < ?S" by (simp add: gathering_def)
  have "\<exists>p<?S. pcs p = AddDone"
  proof (rule ccontr)
    assume "\<not> (\<exists>p<?S. pcs p = AddDone)"
    then have "started pcs ?S = {..<?S}" by (auto simp: started_def)
    with less show False by simp
  qed
  then obtain p where p: "p < ?S" "pcs p = AddDone" by blast
  then have ip: "int p < size' base" by linarith
  have "free_step (base\<lparr>rank := int p\<rparr>) AddDone s \<noteq> None"
    by (simp add: store_add_def split: option.splits store_value.splits)
  then obtain pc' s' where st: "free_step (base\<lparr>rank := int p\<rparr>) AddDone s = Some (pc', s')"
    by (cases "free_step (base\<lparr>rank := int p\<rparr>) AddDone s") auto
  then have "pc' \<noteq> AddDone"
    by (auto simp: store_add_def split: option.splits store_value.splits if_splits)
  with st p ip have "snd (release_step base p (s, pcs)) p \<noteq> pcs p"
    by (simp add: release_step_def)
  then have "release_step base p (s, pcs) \<noteq> (s, pcs)" by auto
  with ip show ?thesis by blast
qed

lemma step_changes:
  assumes "release_step base p (s, pcs) = (s', pcs(p := pc'))" "pc' \<noteq> pcs p"
  shows "release_step base p (s, pcs) \<noteq> (s, pcs)"
proof
  assume "release_step base p (s, pcs) = (s, pcs)"
  with assms(1) have "pcs(p := pc') = pcs" by simp
  then have "(pcs(p := pc')) p = pcs p" by simp
  with assms(2) show False by simp
qed

lemma releasing_progress:
  assumes r: "releasing base L (s, pcs)"
    and some: "int q < size' base" "pcs q \<noteq> Returned UCC_OK"
  shows "\<exists>p. int p < size' base \<and> release_step base p (s, pcs) \<noteq> (s, pcs)"
proof -
  let ?S = "nat (size' base)"
  from r have LS: "L < ?S" by (simp add: releasing_def)
  then have iL: "int L < size' base" by linarith
  from r have stage: "last_stage ?S (pcs L)" by (simp add: releasing_def)
  show ?thesis
  proof (cases "pcs L = Returned UCC_OK")
    case False
    have "release_step base L (s, pcs) \<noteq> (s, pcs)"
    proof (cases "pcs L")
      case AddDone
      with stage show ?thesis by simp
    next
      case WaitFree
      with stage show ?thesis by simp
    next
      case DelDone
      from release_step_DelDone [where pcs = pcs and p = L, OF iL DelDone] obtain s' where
        "release_step base L (s, pcs) = (s', pcs(L := DelTeamr 0))" by blast
      then show ?thesis by (rule step_changes) (simp add: DelDone)
    next
      case (DelTeamr j)
      show ?thesis
      proof (cases "int j < size' base")
        case True
        from release_step_DelTeamr [where pcs = pcs and p = L, OF iL DelTeamr True] obtain s' where
          "release_step base L (s, pcs) = (s', pcs(L := DelTeamr (Suc j)))" by blast
        then show ?thesis by (rule step_changes) (simp add: DelTeamr)
      next
        case False
        from release_step_DelTeamr_exit [where pcs = pcs and p = L, OF iL DelTeamr False]
        show ?thesis by (rule step_changes) (simp add: DelTeamr)
      qed
    next
      case (AddFree j)
      show ?thesis
      proof (cases "int j < size' base")
        case True
        then have jS: "j < ?S" by simp
        have pj: "pcs j = WaitFree" if "j \<noteq> L"
          using r AddFree that jS by (auto simp: releasing_def)
        have "kv s (ag_free_key base (int j)) = None"
        proof (cases "j = L")
          case True
          with r AddFree show ?thesis by (simp add: releasing_def)
        next
          case False
          with r AddFree jS pj show ?thesis by (auto simp: releasing_def)
        qed
        from release_step_AddFree [where pcs = pcs and p = L, OF iL AddFree True this]
        obtain s' where "release_step base L (s, pcs) = (s', pcs(L := AddFree (Suc j)))" by blast
        then show ?thesis by (rule step_changes) (simp add: AddFree)
      next
        case False
        from release_step_AddFree_exit [where pcs = pcs and p = L, OF iL AddFree False]
        show ?thesis by (rule step_changes) (simp add: AddFree)
      qed
    next
      case DelOwnFree
      from release_step_DelOwnFree [where pcs = pcs and p = L, OF iL DelOwnFree] obtain s' where
        "release_step base L (s, pcs) = (s', pcs(L := Returned UCC_OK))" by blast
      then show ?thesis by (rule step_changes) (simp add: DelOwnFree)
    next
      case (Returned st)
      with stage False show ?thesis by simp
    qed
    with iL show ?thesis by blast
  next
    case True
    with some have qL: "q \<noteq> L" by auto
    from some(1) have qS: "q < ?S" by simp
    from r qS qL some(2) consider "pcs q = WaitFree" | "pcs q = DelOwnFree"
      by (auto simp: releasing_def)
    then have "release_step base q (s, pcs) \<noteq> (s, pcs)"
    proof cases
      case 1
      from r qS qL 1 True have "kv s (ag_free_key base (int q)) \<noteq> None"
        by (auto simp: releasing_def)
      from release_step_WaitFree [where pcs = pcs and p = q, OF some(1) 1 this] obtain s' where
        "release_step base q (s, pcs) = (s', pcs(q := DelOwnFree))" by blast
      then show ?thesis by (rule step_changes) (simp add: 1)
    next
      case 2
      from release_step_DelOwnFree [where pcs = pcs and p = q, OF some(1) 2] obtain s' where
        "release_step base q (s, pcs) = (s', pcs(q := Returned UCC_OK))" by blast
      then show ?thesis by (rule step_changes) (simp add: 2)
    qed
    with some(1) show ?thesis by blast
  qed
qed

lemma round_progress:
  assumes "round_inv base (s, pcs)" and "int q < size' base" "pcs q \<noteq> Returned UCC_OK"
  shows "\<exists>p. int p < size' base \<and> release_step base p (s, pcs) \<noteq> (s, pcs)"
proof -
  from assms(1) consider "gathering base (s, pcs)" | L where "releasing base L (s, pcs)"
    by (auto simp: round_inv_def)
  then show ?thesis
  proof cases
    case 1
    from assms(2) have "0 < size' base" by linarith
    with 1 show ?thesis by (rule gathering_progress)
  next
    case 2
    then show ?thesis using assms(2,3) by (rule releasing_progress)
  qed
qed

lemma release_round_completes:
  assumes int: "size' base < 2 ^ 31" and inv: "round_inv base g"
  shows "\<exists>sched. \<forall>p. int p < size' base \<longrightarrow> snd (release_run base sched g) p = Returned UCC_OK"
  using inv
proof (induction "round_steps_left base (snd g)" arbitrary: g rule: less_induct)
  case less
  obtain s pcs where g: "g = (s, pcs)" by (cases g)
  show ?case
  proof (cases "\<forall>p. int p < size' base \<longrightarrow> pcs p = Returned UCC_OK")
    case True
    with g have "\<forall>p. int p < size' base \<longrightarrow> snd (release_run base [] g) p = Returned UCC_OK"
      by (simp add: release_run_def)
    then show ?thesis by blast
  next
    case False
    then obtain q where q: "int q < size' base" "pcs q \<noteq> Returned UCC_OK" by blast
    from less.prems g have "round_inv base (s, pcs)" by simp
    from round_progress [OF this q] obtain p where
      p: "int p < size' base" and ch: "release_step base p (s, pcs) \<noteq> (s, pcs)" by blast
    from release_step_cases [OF p, of s pcs] ch obtain pc' s' where
      st: "release_step base p (s, pcs) = (s', pcs(p := pc'))"
      and dec: "free_steps_left base pc' < free_steps_left base (pcs p)" by blast
    from p have "p < nat (size' base)" by simp
    from round_steps_left_upd [where pcs = pcs, OF this dec]
    have m: "round_steps_left base (snd (release_step base p g)) < round_steps_left base (snd g)"
      by (simp add: g st)
    from less.prems have "round_inv base (release_step base p g)" by (rule round_inv_step [OF int])
    from less.hyps [OF m this] obtain sched where
      "\<forall>r. int r < size' base \<longrightarrow> snd (release_run base sched (release_step base p g)) r = Returned UCC_OK"
      by blast
    then have "\<forall>r. int r < size' base \<longrightarrow> snd (release_run base (p # sched) g) r = Returned UCC_OK"
      by (simp add: release_run_def)
    then show ?thesis by blast
  qed
qed

lemma release_round_can_complete:
  assumes "size' base < 2 ^ 31"
    and "kv s0 (ag_done_key base) = None"
    and "\<forall>r. int r < size' base \<longrightarrow> kv s0 (ag_free_key base (int r)) = None"
  shows "\<exists>sched. \<forall>p. int p < size' base \<longrightarrow>
           snd (release_run base sched (s0, \<lambda>p. AddDone)) p = Returned UCC_OK"
  using assms(1) round_inv_start [OF assms(2,3)] by (rule release_round_completes)

subsection \<open>A failed initiate\<close>

text \<open>
  C8, as amended. When the store is unreachable, \<open>oob_allgather\<close> returns
  \<open>UCC_ERR_NO_MESSAGE\<close> and leaves the struct, the request slot, the memory and the
  contents of the store as they were. The code keeps no state of the request, so later
  calls are not rejected: on any later store, \<open>oob_allgather_test\<close> returns
  \<open>UCC_INPROGRESS\<close> while a publish key is missing, and \<open>oob_allgather_free\<close>
  starts with its increment of \<open>ag_done\<close>, which changes the counter.
\<close>

theorem failed_initiate_keeps_no_state:
  assumes down: "\<not> reachable (store w)"
  shows "\<exists>w1. oob_allgather sbuf rbuf_arg msglen_arg coll_info w = (UCC_ERR_NO_MESSAGE, w1)
     \<and> info w1 = info w \<and> req w1 = req w \<and> mem w1 = mem w \<and> kv (store w1) = kv (store w)
     \<and> (\<forall>s2 r. r < nat (size' (info w)) \<and> kv s2 (teamr_key (info w) (int r)) = None \<longrightarrow>
            (\<exists>w'. oob_allgather_test (w1\<lparr>store := s2\<rparr>) = Some (UCC_INPROGRESS, w')))
     \<and> (\<forall>s2 c. kv s2 (ag_done_key (info w)) = c \<and> (\<forall>b. c \<noteq> Some (Bytes b)) \<longrightarrow>
            (\<exists>pc s'. free_step (info w1) AddDone s2 = Some (pc, s') \<and> pc \<noteq> Returned UCC_ERR_NO_MESSAGE
               \<and> oplog s' = oplog s2 @ [OpAdd (ag_done_key (info w)) 1]
               \<and> kv s' (ag_done_key (info w)) \<noteq> c))"
proof -
  let ?w1 = "w\<lparr>store := (store w)\<lparr>oplog := oplog (store w) @
      [OpSet (teamr_key (info w) (rank (info w))) (read_bytes (mem w) sbuf (unat msglen_arg))]\<rparr>\<rparr>"
  from down have run: "oob_allgather sbuf rbuf_arg msglen_arg coll_info w = (UCC_ERR_NO_MESSAGE, ?w1)"
    by (simp add: oob_allgather_def store_set_def served_def Let_def)
  have poll: "\<exists>w'. oob_allgather_test (?w1\<lparr>store := s2\<rparr>) = Some (UCC_INPROGRESS, w')"
    if "r < nat (size' (info w)) \<and> kv s2 (teamr_key (info w) (int r)) = None" for s2 r
    using test_in_progress_once [of r "?w1\<lparr>store := s2\<rparr>"] that by auto
  have rel: "\<exists>pc s'. free_step (info ?w1) AddDone s2 = Some (pc, s') \<and> pc \<noteq> Returned UCC_ERR_NO_MESSAGE
               \<and> oplog s' = oplog s2 @ [OpAdd (ag_done_key (info w)) 1]
               \<and> kv s' (ag_done_key (info w)) \<noteq> c"
    if "kv s2 (ag_done_key (info w)) = c \<and> (\<forall>b. c \<noteq> Some (Bytes b))" for s2 c
    using that by (auto simp: store_add_def served_def split: option.splits store_value.splits)
  from run poll rel show ?thesis by (intro exI [of _ ?w1]) simp
qed

text \<open>
  C8 as stated fails. The initiate of rank 1 fails on the unreachable store. When the
  store is reachable again, a poll on the same request returns \<open>UCC_INPROGRESS\<close> and
  a release increments the completion counter and waits: neither call is rejected.
\<close>

theorem failed_initiate_rejected_counterexample:
  "fst (oob_allgather 16 4096 4 64 ex_down_world) = UCC_ERR_NO_MESSAGE
   \<and> store (snd (oob_allgather 16 4096 4 64 ex_down_world)) = ex_up_store\<lparr>reachable := False\<rparr>
   \<and> oob_allgather_test (snd (oob_allgather 16 4096 4 64 ex_down_world)\<lparr>store := ex_up_store\<rparr>)
       = Some (UCC_INPROGRESS,
               ex_down_world\<lparr>store := ex_up_store\<lparr>oplog := oplog ex_up_store @ [OpCheck [''7teamr0'']]\<rparr>\<rparr>)
   \<and> oob_allgather_free (info (snd (oob_allgather 16 4096 4 64 ex_down_world))) ex_up_store
       = (WaitFree,
          ex_up_store\<lparr>kv := [''7ag_done'' \<mapsto> Counter 1],
                      oplog := oplog ex_up_store @ [OpAdd ''7ag_done'' 1]\<rparr>)"
proof -
  have run: "oob_allgather 16 4096 4 64 ex_down_world =
      (UCC_ERR_NO_MESSAGE, ex_down_world\<lparr>store := ex_up_store\<lparr>reachable := False\<rparr>\<rparr>)"
    by (simp add: oob_allgather_def store_set_def served_def Let_def ex_down_world_def
        ex_idle_world_def ex_up_store_def ex_info_fields ex_keys ex_read_sbuf)
  have i: "info ex_down_world = ex_info" by (simp add: ex_down_world_def ex_idle_world_def)
  have poll: "oob_allgather_test (ex_down_world\<lparr>store := ex_up_store\<rparr>)
       = Some (UCC_INPROGRESS,
               ex_down_world\<lparr>store := ex_up_store\<lparr>oplog := oplog ex_up_store @ [OpCheck [''7teamr0'']]\<rparr>\<rparr>)"
    by (simp add: oob_allgather_test_def Let_def i ex_info_fields upt_3 ex_keys store_check_def
        served_def ex_up_store_def)
  have "free_step ex_info AddDone ex_up_store = Some (WaitFree,
          ex_up_store\<lparr>kv := [''7ag_done'' \<mapsto> Counter 1],
                      oplog := oplog ex_up_store @ [OpAdd ''7ag_done'' 1]\<rparr>)"
    by (simp add: store_add_def served_def ex_release_keys ex_up_store_def ex_info_fields
        narrow_int_def)
  then have "oob_allgather_free ex_info ex_up_store = free_run ex_info WaitFree
          (ex_up_store\<lparr>kv := [''7ag_done'' \<mapsto> Counter 1],
                      oplog := oplog ex_up_store @ [OpAdd ''7ag_done'' 1]\<rparr>)"
    unfolding oob_allgather_free_def by (rule free_run_step)
  also have "\<dots> = (WaitFree, ex_up_store\<lparr>kv := [''7ag_done'' \<mapsto> Counter 1],
                      oplog := oplog ex_up_store @ [OpAdd ''7ag_done'' 1]\<rparr>)"
    by (rule free_run_WaitFree_blocked) (simp add: ex_info_fields ex_release_keys ex_up_store_def)
  finally have rel: "oob_allgather_free ex_info ex_up_store = (WaitFree,
          ex_up_store\<lparr>kv := [''7ag_done'' \<mapsto> Counter 1],
                      oplog := oplog ex_up_store @ [OpAdd ''7ag_done'' 1]\<rparr>)" .
  from run poll rel i show ?thesis by simp
qed

theorem failed_initiate_keeps_no_state_witness:
  "\<exists>w1. oob_allgather 16 4096 4 64 ex_down_world = (UCC_ERR_NO_MESSAGE, w1)
     \<and> info w1 = ex_info \<and> req w1 = 0
     \<and> (\<exists>w'. oob_allgather_test (w1\<lparr>store := ex_up_store\<rparr>) = Some (UCC_INPROGRESS, w'))
     \<and> (\<exists>pc s'. free_step (info w1) AddDone ex_up_store = Some (pc, s')
           \<and> pc \<noteq> Returned UCC_ERR_NO_MESSAGE
           \<and> oplog s' = oplog ex_up_store @ [OpAdd ''7ag_done'' 1]
           \<and> kv s' ''7ag_done'' \<noteq> None)"
proof -
  have d: "\<not> reachable (store ex_down_world)" by (simp add: ex_down_world_def)
  have i: "info ex_down_world = ex_info" "req ex_down_world = 0"
    by (simp_all add: ex_down_world_def ex_idle_world_def)
  from failed_initiate_keeps_no_state [OF d, of 16 4096 4 64] obtain w1 where
    a: "oob_allgather 16 4096 4 64 ex_down_world = (UCC_ERR_NO_MESSAGE, w1)"
    and b: "info w1 = info ex_down_world" "req w1 = req ex_down_world"
    and c: "\<forall>s2 r. r < nat (size' (info ex_down_world))
            \<and> kv s2 (teamr_key (info ex_down_world) (int r)) = None \<longrightarrow>
            (\<exists>w'. oob_allgather_test (w1\<lparr>store := s2\<rparr>) = Some (UCC_INPROGRESS, w'))"
    and e: "\<forall>s2 c. kv s2 (ag_done_key (info ex_down_world)) = c \<and> (\<forall>b. c \<noteq> Some (Bytes b)) \<longrightarrow>
            (\<exists>pc s'. free_step (info w1) AddDone s2 = Some (pc, s') \<and> pc \<noteq> Returned UCC_ERR_NO_MESSAGE
               \<and> oplog s' = oplog s2 @ [OpAdd (ag_done_key (info ex_down_world)) 1]
               \<and> kv s' (ag_done_key (info ex_down_world)) \<noteq> c)"
    by blast
  have "0 < nat (size' (info ex_down_world))
      \<and> kv ex_up_store (teamr_key (info ex_down_world) (int 0)) = None"
    by (simp add: i ex_info_fields ex_keys ex_up_store_def)
  with c have c': "\<exists>w'. oob_allgather_test (w1\<lparr>store := ex_up_store\<rparr>) = Some (UCC_INPROGRESS, w')"
    by blast
  have "kv ex_up_store (ag_done_key (info ex_down_world)) = None \<and> (\<forall>b. None \<noteq> Some (Bytes b))"
    by (simp add: i ex_release_keys ex_up_store_def)
  with e have "\<exists>pc s'. free_step (info w1) AddDone ex_up_store = Some (pc, s')
           \<and> pc \<noteq> Returned UCC_ERR_NO_MESSAGE
           \<and> oplog s' = oplog ex_up_store @ [OpAdd (ag_done_key (info ex_down_world)) 1]
           \<and> kv s' (ag_done_key (info ex_down_world)) \<noteq> None"
    by blast
  then have e': "\<exists>pc s'. free_step (info w1) AddDone ex_up_store = Some (pc, s')
           \<and> pc \<noteq> Returned UCC_ERR_NO_MESSAGE
           \<and> oplog s' = oplog ex_up_store @ [OpAdd ''7ag_done'' 1]
           \<and> kv s' ''7ag_done'' \<noteq> None"
    by (simp add: i ex_release_keys)
  from a b [unfolded i] c' e' show ?thesis by blast
qed

section \<open>Claims about the communicator constructors\<close>

lemma ucc_acquires_failed [simp]: "st \<noteq> UCC_OK \<Longrightarrow> ucc_acquires (c, st) = None"
  by (cases st; cases c) simp_all

lemma ucx_acquires_failed [simp]: "st \<noteq> UCS_OK \<Longrightarrow> ucx_acquires (c, st) = None"
  by (cases st; cases c) simp_all




text \<open>
  C6, as amended. When \<open>ucp_lib_query\<close> reports a thread level other than
  \<open>UCS_THREAD_MODE_MULTI\<close>, the \<open>CommUCX\<close> constructor throws right after the query:
  it has acquired no resource and issued no releasing call. When the UCC library reports
  a thread mode other than \<open>UCC_THREAD_MULTIPLE\<close>, the \<open>CommUCC\<close> constructor throws
  too, but only after it read the lib config, initialised the library handle and released
  the lib config, since the mode is queried from the initialised handle; it acquires
  neither a context configuration nor a context.
\<close>

theorem single_threaded_library_rejected:
  "(ucp_lib_query_status x = UCS_OK \<and> max_thread_level x \<noteq> UCS_THREAD_MODE_MULTI \<longrightarrow>
      (\<exists>msg. CommUCX_ctor x = (Inl (TorchCheckError msg), [(Ucp_lib_query, UCS_OK)]))
      \<and> acquired ucx_acquires (snd (CommUCX_ctor x)) = []
      \<and> released ucx_releases (snd (CommUCX_ctor x)) = [])
   \<and> (ucc_lib_config_read_status l = UCC_OK \<and> ucc_init_status l = UCC_OK
      \<and> ucc_lib_get_attr_status l = UCC_OK \<and> thread_mode l \<noteq> UCC_THREAD_MULTIPLE \<longrightarrow>
      (\<exists>msg. fst (CommUCC_ctor l) = Inl (TorchCheckError msg))
      \<and> take 4 (snd (CommUCC_ctor l)) =
          [(Ucc_lib_config_read, UCC_OK), (Ucc_init, UCC_OK), (Ucc_lib_config_release, UCC_OK),
           (Ucc_lib_get_attr, UCC_OK)]
      \<and> UccContextConfig \<notin> set (acquired ucc_acquires (snd (CommUCC_ctor l)))
      \<and> UccContext \<notin> set (acquired ucc_acquires (snd (CommUCC_ctor l))))"
  by (simp add: CommUCX_ctor_def CommUCC_ctor_def Let_def acquired_def released_def
      List.map_filter_simps)

theorem single_threaded_library_rejected_witness:
  "(\<exists>msg. CommUCX_ctor ex_ucx_single = (Inl (TorchCheckError msg), [(Ucp_lib_query, UCS_OK)]))
   \<and> acquired ucx_acquires (snd (CommUCX_ctor ex_ucx_single)) = []
   \<and> released ucx_releases (snd (CommUCX_ctor ex_ucx_single)) = []
   \<and> (\<exists>msg. fst (CommUCC_ctor ex_ucc_single) = Inl (TorchCheckError msg))
   \<and> take 4 (snd (CommUCC_ctor ex_ucc_single)) =
          [(Ucc_lib_config_read, UCC_OK), (Ucc_init, UCC_OK), (Ucc_lib_config_release, UCC_OK),
           (Ucc_lib_get_attr, UCC_OK)]
   \<and> UccContext \<notin> set (acquired ucc_acquires (snd (CommUCC_ctor ex_ucc_single)))"
proof -
  have h1: "ucp_lib_query_status ex_ucx_single = UCS_OK
      \<and> max_thread_level ex_ucx_single \<noteq> UCS_THREAD_MODE_MULTI"
    by (simp add: ex_ucx_single_def)
  have h2: "ucc_lib_config_read_status ex_ucc_single = UCC_OK
      \<and> ucc_init_status ex_ucc_single = UCC_OK
      \<and> ucc_lib_get_attr_status ex_ucc_single = UCC_OK
      \<and> thread_mode ex_ucc_single \<noteq> UCC_THREAD_MULTIPLE"
    by (simp add: ex_ucc_single_def)
  note t = single_threaded_library_rejected [of ex_ucx_single ex_ucc_single]
  from t [THEN conjunct1, rule_format, OF h1] t [THEN conjunct2, rule_format, OF h2]
  show ?thesis by blast
qed

text \<open>
  C6 as stated fails for \<open>CommUCC\<close>: with a library that reports
  \<open>UCC_THREAD_SINGLE\<close> the constructor throws after it acquired the lib config and the
  library handle, and after the releasing call \<open>ucc_lib_config_release\<close>; the library
  handle is still held when it throws.
\<close>

theorem single_threaded_ucc_counterexample:
  "isl (fst (CommUCC_ctor ex_ucc_single))
   \<and> snd (CommUCC_ctor ex_ucc_single) =
        [(Ucc_lib_config_read, UCC_OK), (Ucc_init, UCC_OK), (Ucc_lib_config_release, UCC_OK),
         (Ucc_lib_get_attr, UCC_OK)]
   \<and> acquired ucc_acquires (snd (CommUCC_ctor ex_ucc_single)) = [UccLibConfig, UccLib]
   \<and> released ucc_releases (snd (CommUCC_ctor ex_ucc_single)) = [UccLibConfig]
   \<and> held_after ucc_acquires ucc_releases [] (snd (CommUCC_ctor ex_ucc_single)) = [UccLib]"
  by (simp add: CommUCC_ctor_def Let_def ex_ucc_single_def acquired_def released_def
      List.map_filter_simps)

section \<open>Claims about the trace logger\<close>

lemma ex_digits:
  "to_string 0 = ''0''" "to_string 1 = ''1''" "to_string 2 = ''2''" "to_string 3 = ''3''"
  "to_string 4 = ''4''" "to_string 4000 = ''4000''"
  by (simp_all add: to_string_def nat_digits.simps digit_char_def)

lemma recordComms_fields:
  "seqnum (recordComms commName workReq rank' world_size ins outs now s) = seqnum s + 1"
  "startTS (recordComms commName workReq rank' world_size ins outs now s)
     = Some (first_call_time now s)"
  "curBlocks (recordComms commName workReq rank' world_size ins outs now s) = curBlocks s"
  by (simp_all add: recordComms_def Let_def)

lemma ex_rooted_logger_fields:
  "seqnum ex_rooted_logger = 0" "startTS ex_rooted_logger = None"
  "curBlocks ex_rooted_logger = []" "comms_trace ex_rooted_logger = []"
  "curRoot ex_rooted_logger = 0" "curInSplitSizes ex_rooted_logger = [3, 4]"
  "curOutSplitSizes ex_rooted_logger = [1, 2]"
  by (simp_all add: ex_rooted_logger_def recordOptionalInfo_root_def
      recordOptionalInfo_splits_def ex_logger_def)

lemma recordComms_reset:
  "curRoot (recordComms commName workReq rank' world_size ins outs now s) = - 1"
  "curInSplitSizes (recordComms commName workReq rank' world_size ins outs now s) = []"
  "curOutSplitSizes (recordComms commName workReq rank' world_size ins outs now s) = []"
  by (simp_all add: recordComms_def Let_def)

lemma startTS_recordComms_args:
  "startTS s = Some t \<Longrightarrow> startTS (recordComms_args a s) = Some t"
  by (cases a) (simp add: recordComms_args_def recordComms_def first_call_time_def Let_def)

lemma startTS_run:
  "startTS s = Some t \<Longrightarrow> startTS (fold recordComms_args calls s) = Some t"
  by (induction calls arbitrary: s) (simp_all add: startTS_recordComms_args)

text \<open>
  C9, as amended. The record that \<open>recordComms\<close> appends is the markers, then the field
  \<open>startTime_ns\<close> equal to the clock reading of this call minus the one of the first
  \<open>recordComms\<close> call of the process, then the fields \<open>comms\<close>, \<open>req\<close>,
  \<open>seqnum\<close> and \<open>world_size\<close> and the optional ones. The first call, whose record
  therefore carries 0, sets the static \<open>startTS\<close> to its own clock reading, and
  \<open>startTS\<close> keeps that value through every later call.
\<close>

theorem recordComms_startTime_ns:
  "comms_trace (recordComms commName workReq rank' world_size ins outs now s) =
     comms_trace s @
     [[CHR 0x0A, CHR 0x09] @ ''{'' @ nl_tt @ label ''markers'' @ ''[''
      @ print_sequence (curBlocks s) @ '']''
      @ '','' @ nl_tt @ label ''startTime_ns''
      @ to_string (now - (case startTS s of None \<Rightarrow> now | Some t \<Rightarrow> t))
      @ '','' @ nl_tt @ label ''comms'' @ dq @ commName @ dq
      @ '','' @ nl_tt @ label ''req'' @ to_string (int workReq)
      @ '','' @ nl_tt @ label ''seqnum'' @ to_string (seqnum s)
      @ '','' @ nl_tt @ label ''world_size'' @ to_string world_size
      @ msg_fields ins outs @ root_field s @ split_fields s
      @ [CHR 0x0A, CHR 0x09] @ ''}'']
   \<and> startTS (fold recordComms_args later
         (recordComms commName workReq rank' world_size ins outs now s))
       = Some (case startTS s of None \<Rightarrow> now | Some t \<Rightarrow> t)"
proof -
  have "startTS (recordComms commName workReq rank' world_size ins outs now s)
      = Some (case startTS s of None \<Rightarrow> now | Some t \<Rightarrow> t)"
    by (simp add: recordComms_def first_call_time_def Let_def)
  then have "startTS (fold recordComms_args later
         (recordComms commName workReq rank' world_size ins outs now s))
       = Some (case startTS s of None \<Rightarrow> now | Some t \<Rightarrow> t)"
    by (rule startTS_run)
  then show ?thesis
    by (simp add: recordComms_def common_fields_def first_call_time_def Let_def)
qed

theorem recordComms_startTime_ns_witness:
  "comms_trace (recordComms ''allreduce'' 4 0 2 [] [] 9000
      (recordComms ''broadcast'' 3 0 2 [] [] 5000 ex_logger)) =
     [[CHR 0x0A, CHR 0x09] @ ''{'' @ nl_tt @ label ''markers'' @ ''[]''
      @ '','' @ nl_tt @ label ''startTime_ns'' @ ''0''
      @ '','' @ nl_tt @ label ''comms'' @ dq @ ''broadcast'' @ dq
      @ '','' @ nl_tt @ label ''req'' @ ''3''
      @ '','' @ nl_tt @ label ''seqnum'' @ ''0''
      @ '','' @ nl_tt @ label ''world_size'' @ ''2''
      @ [CHR 0x0A, CHR 0x09] @ ''}'',
      [CHR 0x0A, CHR 0x09] @ ''{'' @ nl_tt @ label ''markers'' @ ''[]''
      @ '','' @ nl_tt @ label ''startTime_ns'' @ ''4000''
      @ '','' @ nl_tt @ label ''comms'' @ dq @ ''allreduce'' @ dq
      @ '','' @ nl_tt @ label ''req'' @ ''4''
      @ '','' @ nl_tt @ label ''seqnum'' @ ''1''
      @ '','' @ nl_tt @ label ''world_size'' @ ''2''
      @ [CHR 0x0A, CHR 0x09] @ ''}'']
   \<and> startTS (recordComms ''allreduce'' 4 0 2 [] [] 9000
        (recordComms ''broadcast'' 3 0 2 [] [] 5000 ex_logger)) = Some 5000"
proof -
  let ?s1 = "recordComms ''broadcast'' 3 0 2 [] [] 5000 ex_logger"
  let ?s2 = "recordComms ''allreduce'' 4 0 2 [] [] 9000 ?s1"
  note a = recordComms_startTime_ns
    [of "''broadcast''" 3 0 2 "[]" "[]" 5000 ex_logger "[(''allreduce'', 4, 0, 2, [], [], 9000)]"]
  note b = recordComms_startTime_ns [of "''allreduce''" 4 0 2 "[]" "[]" 9000 ?s1 "[]"]
  have l: "startTS ex_logger = None" "curBlocks ex_logger = []" "seqnum ex_logger = 0"
    "comms_trace ex_logger = []" "root_field ex_logger = []" "split_fields ex_logger = []"
    by (simp_all add: ex_logger_def root_field_def split_fields_def)
  have s1: "startTS ?s1 = Some 5000" "curBlocks ?s1 = []" "seqnum ?s1 = 1"
    "root_field ?s1 = []" "split_fields ?s1 = []"
    by (simp_all add: recordComms_fields recordComms_reset first_call_time_def l
        root_field_def split_fields_def)
  have m: "msg_fields [] [] = []" by (simp add: msg_fields_def)
  from a have t2: "startTS ?s2 = Some 5000" by (simp add: recordComms_args_def l)
  from a have r1: "comms_trace ?s1 =
     [[CHR 0x0A, CHR 0x09] @ ''{'' @ nl_tt @ label ''markers'' @ ''[]''
      @ '','' @ nl_tt @ label ''startTime_ns'' @ ''0''
      @ '','' @ nl_tt @ label ''comms'' @ dq @ ''broadcast'' @ dq
      @ '','' @ nl_tt @ label ''req'' @ ''3''
      @ '','' @ nl_tt @ label ''seqnum'' @ ''0''
      @ '','' @ nl_tt @ label ''world_size'' @ ''2''
      @ [CHR 0x0A, CHR 0x09] @ ''}'']"
    by (simp add: l m print_sequence_def ex_digits)
  from b have r2: "comms_trace ?s2 = comms_trace ?s1 @
     [[CHR 0x0A, CHR 0x09] @ ''{'' @ nl_tt @ label ''markers'' @ ''[]''
      @ '','' @ nl_tt @ label ''startTime_ns'' @ ''4000''
      @ '','' @ nl_tt @ label ''comms'' @ dq @ ''allreduce'' @ dq
      @ '','' @ nl_tt @ label ''req'' @ ''4''
      @ '','' @ nl_tt @ label ''seqnum'' @ ''1''
      @ '','' @ nl_tt @ label ''world_size'' @ ''2''
      @ [CHR 0x0A, CHR 0x09] @ ''}'']"
    by (simp add: s1 m print_sequence_def ex_digits)
  from r1 r2 t2 show ?thesis by simp
qed

text \<open>
  C9 as stated fails. A process starts at clock reading 1000 and calls \<open>recordComms\<close>
  for the first time at 5000: 4000 ns have elapsed since the process started, and the
  record carries \<open>startTime_ns\<close> 0.
\<close>

theorem recordComms_startTime_ns_counterexample:
  "comms_trace (recordComms ''allreduce'' 1 0 2 [] [] 5000 ex_logger) = [ex_first_record ''0'']
   \<and> spec_startTime_ns 1000 5000 = 4000
   \<and> ex_first_record (to_string (spec_startTime_ns 1000 5000)) \<noteq> ex_first_record ''0''"
  by (simp add: recordComms_def common_fields_def msg_fields_def root_field_def
      split_fields_def first_call_time_def print_sequence_def ex_logger_def Let_def
      to_string_def nat_digits.simps digit_char_def ex_first_record_def
      spec_startTime_ns_def)

lemma recordComms_plain:
  assumes "curRoot s = - 1" "curInSplitSizes s = []" "curOutSplitSizes s = []"
  shows "comms_trace (recordComms_args a s) = comms_trace s @ [plain_record a s]"
  using assms
  by (cases a)
    (simp add: recordComms_args_def plain_record_def recordComms_def root_field_def
      split_fields_def Let_def)

lemma recordComms_args_reset:
  "curRoot (recordComms_args a s) = - 1" "curInSplitSizes (recordComms_args a s) = []"
  "curOutSplitSizes (recordComms_args a s) = []"
  by (cases a; simp add: recordComms_args_def recordComms_reset)+

lemma plain_run:
  assumes "curRoot s = - 1" "curInSplitSizes s = []" "curOutSplitSizes s = []"
  shows "comms_trace (fold recordComms_args calls s) = comms_trace s @ plain_records calls s"
  using assms
proof (induction calls arbitrary: s)
  case Nil
  show ?case by simp
next
  case (Cons a calls)
  have "comms_trace (fold recordComms_args calls (recordComms_args a s)) =
      comms_trace (recordComms_args a s) @ plain_records calls (recordComms_args a s)"
    by (rule Cons.IH) (rule recordComms_args_reset)+
  with Cons.prems show ?case by (simp add: recordComms_plain)
qed

text \<open>
  C10. When \<open>recordComms\<close> returns, \<open>curRoot\<close> is -1 and both split-size lists are
  empty. The record it appended carries the root and the splits that were set when it
  was called; the records of any later \<open>recordComms\<close> calls (with no
  \<open>recordOptionalInfo\<close> in between) are plain: the common fields and the message sizes,
  with no root and no splits.
\<close>

theorem recordComms_resets_optional_info:
  "curRoot (recordComms commName workReq rank' world_size ins outs now s) = - 1
   \<and> curInSplitSizes (recordComms commName workReq rank' world_size ins outs now s) = []
   \<and> curOutSplitSizes (recordComms commName workReq rank' world_size ins outs now s) = []
   \<and> comms_trace (recordComms commName workReq rank' world_size ins outs now s) =
       comms_trace s @
       [[CHR 0x0A, CHR 0x09] @ ''{''
        @ common_fields commName workReq world_size (now - first_call_time now s) s
        @ msg_fields ins outs @ root_field s @ split_fields s
        @ [CHR 0x0A, CHR 0x09] @ ''}'']
   \<and> comms_trace (fold recordComms_args later
         (recordComms commName workReq rank' world_size ins outs now s)) =
       comms_trace (recordComms commName workReq rank' world_size ins outs now s)
       @ plain_records later (recordComms commName workReq rank' world_size ins outs now s)"
proof -
  have "comms_trace (recordComms commName workReq rank' world_size ins outs now s) =
       comms_trace s @
       [[CHR 0x0A, CHR 0x09] @ ''{''
        @ common_fields commName workReq world_size (now - first_call_time now s) s
        @ msg_fields ins outs @ root_field s @ split_fields s
        @ [CHR 0x0A, CHR 0x09] @ ''}'']"
    by (simp add: recordComms_def Let_def)
  moreover have "comms_trace (fold recordComms_args later
         (recordComms commName workReq rank' world_size ins outs now s)) =
       comms_trace (recordComms commName workReq rank' world_size ins outs now s)
       @ plain_records later (recordComms commName workReq rank' world_size ins outs now s)"
    by (rule plain_run) (rule recordComms_reset)+
  ultimately show ?thesis by (simp add: recordComms_reset)
qed

theorem recordComms_resets_optional_info_witness:
  "comms_trace (fold recordComms_args [ex_later_call]
      (recordComms ''broadcast'' 1 0 2 [] [] 5000 ex_rooted_logger)) =
     [[CHR 0x0A, CHR 0x09] @ ''{'' @ nl_tt @ label ''markers'' @ ''[]''
      @ '','' @ nl_tt @ label ''startTime_ns'' @ ''0''
      @ '','' @ nl_tt @ label ''comms'' @ dq @ ''broadcast'' @ dq
      @ '','' @ nl_tt @ label ''req'' @ ''1''
      @ '','' @ nl_tt @ label ''seqnum'' @ ''0''
      @ '','' @ nl_tt @ label ''world_size'' @ ''2''
      @ '','' @ nl_tt @ label ''root'' @ ''0''
      @ '','' @ nl_tt @ label ''in_split'' @ ''[3,4]''
      @ '','' @ nl_tt @ label ''out_split'' @ ''[1,2]''
      @ [CHR 0x0A, CHR 0x09] @ ''}'',
      [CHR 0x0A, CHR 0x09] @ ''{'' @ nl_tt @ label ''markers'' @ ''[]''
      @ '','' @ nl_tt @ label ''startTime_ns'' @ ''4000''
      @ '','' @ nl_tt @ label ''comms'' @ dq @ ''allreduce'' @ dq
      @ '','' @ nl_tt @ label ''req'' @ ''2''
      @ '','' @ nl_tt @ label ''seqnum'' @ ''1''
      @ '','' @ nl_tt @ label ''world_size'' @ ''2''
      @ [CHR 0x0A, CHR 0x09] @ ''}'']
   \<and> curRoot (recordComms ''broadcast'' 1 0 2 [] [] 5000 ex_rooted_logger) = - 1"
proof -
  let ?s1 = "recordComms ''broadcast'' 1 0 2 [] [] 5000 ex_rooted_logger"
  note t = recordComms_resets_optional_info
    [of "''broadcast''" 1 0 2 "[]" "[]" 5000 ex_rooted_logger "[ex_later_call]"]
  have first: "common_fields ''broadcast'' 1 2 (5000 - first_call_time 5000 ex_rooted_logger)
        ex_rooted_logger
      @ msg_fields [] [] @ root_field ex_rooted_logger @ split_fields ex_rooted_logger =
      nl_tt @ label ''markers'' @ ''[]''
      @ '','' @ nl_tt @ label ''startTime_ns'' @ ''0''
      @ '','' @ nl_tt @ label ''comms'' @ dq @ ''broadcast'' @ dq
      @ '','' @ nl_tt @ label ''req'' @ ''1''
      @ '','' @ nl_tt @ label ''seqnum'' @ ''0''
      @ '','' @ nl_tt @ label ''world_size'' @ ''2''
      @ '','' @ nl_tt @ label ''root'' @ ''0''
      @ '','' @ nl_tt @ label ''in_split'' @ ''[3,4]''
      @ '','' @ nl_tt @ label ''out_split'' @ ''[1,2]''"
    by (simp add: common_fields_def msg_fields_def root_field_def split_fields_def
        first_call_time_def print_sequence_def ex_rooted_logger_fields ex_digits Let_def)
  have second: "plain_records [ex_later_call] ?s1 =
     [[CHR 0x0A, CHR 0x09] @ ''{'' @ nl_tt @ label ''markers'' @ ''[]''
      @ '','' @ nl_tt @ label ''startTime_ns'' @ ''4000''
      @ '','' @ nl_tt @ label ''comms'' @ dq @ ''allreduce'' @ dq
      @ '','' @ nl_tt @ label ''req'' @ ''2''
      @ '','' @ nl_tt @ label ''seqnum'' @ ''1''
      @ '','' @ nl_tt @ label ''world_size'' @ ''2''
      @ [CHR 0x0A, CHR 0x09] @ ''}'']"
    by (simp add: plain_record_def ex_later_call_def common_fields_def msg_fields_def
        first_call_time_def print_sequence_def recordComms_fields ex_rooted_logger_fields
        ex_digits Let_def)
  have empty: "comms_trace ex_rooted_logger = []" by (rule ex_rooted_logger_fields)
  from t have "comms_trace (fold recordComms_args [ex_later_call] ?s1) =
      (comms_trace ex_rooted_logger @
       [[CHR 0x0A, CHR 0x09] @ ''{''
        @ (common_fields ''broadcast'' 1 2 (5000 - first_call_time 5000 ex_rooted_logger)
             ex_rooted_logger
           @ msg_fields [] [] @ root_field ex_rooted_logger @ split_fields ex_rooted_logger)
        @ [CHR 0x0A, CHR 0x09] @ ''}''])
      @ plain_records [ex_later_call] ?s1"
    by simp
  then have "comms_trace (fold recordComms_args [ex_later_call] ?s1) =
     [[CHR 0x0A, CHR 0x09] @ ''{'' @ nl_tt @ label ''markers'' @ ''[]''
      @ '','' @ nl_tt @ label ''startTime_ns'' @ ''0''
      @ '','' @ nl_tt @ label ''comms'' @ dq @ ''broadcast'' @ dq
      @ '','' @ nl_tt @ label ''req'' @ ''1''
      @ '','' @ nl_tt @ label ''seqnum'' @ ''0''
      @ '','' @ nl_tt @ label ''world_size'' @ ''2''
      @ '','' @ nl_tt @ label ''root'' @ ''0''
      @ '','' @ nl_tt @ label ''in_split'' @ ''[3,4]''
      @ '','' @ nl_tt @ label ''out_split'' @ ''[1,2]''
      @ [CHR 0x0A, CHR 0x09] @ ''}'',
      [CHR 0x0A, CHR 0x09] @ ''{'' @ nl_tt @ label ''markers'' @ ''[]''
      @ '','' @ nl_tt @ label ''startTime_ns'' @ ''4000''
      @ '','' @ nl_tt @ label ''comms'' @ dq @ ''allreduce'' @ dq
      @ '','' @ nl_tt @ label ''req'' @ ''2''
      @ '','' @ nl_tt @ label ''seqnum'' @ ''1''
      @ '','' @ nl_tt @ label ''world_size'' @ ''2''
      @ [CHR 0x0A, CHR 0x09] @ ''}'']"
    unfolding first second empty by simp
  moreover from t have "curRoot ?s1 = - 1" by simp
  ultimately show ?thesis by blast
qed

end
